theory Spec2Isabelle
  imports Complex_Main "HOL-Library.Multiset"
begin

section \<open>The SIR cellular automaton of the component \<open>SIRSimulation\<close>\<close>

text \<open>
  The repository holds two variants of one React component. The one modelled here is
  \<open>src/unnamed/part_000\<close>, which \<open>main.jsx\<close> mounts under the name
  \<open>ModifiedApp.jsx\<close>: it has the seeded initial grid, the visible run, the headless
  runs and the export of their means. The older \<open>App.jsx\<close> has the same
  \<open>getNeighbors\<close>, \<open>step\<close> and \<open>countStates\<close> and an unseeded initializer, which
  is modelled at the end of the definitions. Drawing on the canvas, the GIF and the
  download of the exported file read the state and change none of it: they are left
  out.

  The component keeps its parameters in one object
  \<open>params = {M, N, I0, T, r, beta, alpha}\<close>. The integer fields are JavaScript numbers
  that hold integers (they come from \<open>parseInt\<close>), modelled as \<open>int\<close>; \<open>beta\<close>,
  \<open>alpha\<close> and the random draws are doubles, idealised as \<open>real\<close>. The fields carry the
  prefix \<open>par_\<close> because a record field named \<open>M\<close> or \<open>r\<close> would capture these
  letters everywhere in the theory; for the same reason the fields of a record of a
  history are \<open>rec_t\<close>, \<open>rec_s\<close>, \<open>rec_i\<close>, \<open>rec_r\<close>, and \<open>total\<close> of the source is
  \<open>tot\<close>.
\<close>

record params =
  par_M :: int
  par_N :: int
  par_I0 :: int
  par_T :: int
  par_r :: int
  par_beta :: real
  par_alpha :: real

text \<open>
  A grid is an array of rows of numbers: 0 susceptible, 1 infected, 2 recovered.
\<close>

type_synonym grid = "int list list"

text \<open>
  The exceptions the engine of the source can raise: reading a property of \<open>undefined\<close>
  (\<open>TypeError\<close>) and \<open>Array(n)\<close> with an invalid length (\<open>RangeError\<close>).
  \<open>OutsideModel\<close> is not a JavaScript exception: it marks the one write a list cannot
  hold (a column index below 0 or beyond the end of the row), which needs a random
  draw outside \<open>[0,1)\<close>.
\<close>

datatype js_error = TypeError | RangeError | OutsideModel

text \<open>
  \<open>Math.random()\<close>: the values it will return, in call order, and the number of calls
  made so far.
\<close>

record world =
  draws :: "nat \<Rightarrow> real"
  calls :: nat

definition Math_random :: "world \<Rightarrow> real \<times> world" where
  "Math_random w = (draws w (calls w), w\<lparr>calls := Suc (calls w)\<rparr>)"

subsection \<open>Arrays and loops\<close>

text \<open>
  The remainder \<open>a % m\<close> of JavaScript truncates towards zero and takes the sign of
  \<open>a\<close>; \<open>a % 0\<close> is \<open>NaN\<close>, here \<open>None\<close>.
\<close>

definition js_rem :: "int \<Rightarrow> int \<Rightarrow> int option" where
  "js_rem a m = (if m = 0 then None else Some (sgn a * (\<bar>a\<bar> mod \<bar>m\<bar>)))"

text \<open>
  \<open>g[i][j]\<close> as a read: \<open>g[i]\<close> is \<open>undefined\<close> outside the array (and at
  \<open>NaN\<close>), and reading \<open>[j]\<close> of \<open>undefined\<close> throws; inside a row, an index
  outside it reads \<open>undefined\<close>, here \<open>None\<close>.
\<close>

definition read_cell :: "grid \<Rightarrow> int option \<Rightarrow> int option \<Rightarrow> js_error + int option" where
  "read_cell g i j =
     (case i of
        None \<Rightarrow> Inl TypeError
      | Some i' \<Rightarrow>
          if i' < 0 \<or> int (length g) \<le> i' then Inl TypeError
          else (case j of
                  None \<Rightarrow> Inr None
                | Some j' \<Rightarrow>
                    if 0 \<le> j' \<and> j' < int (length (g ! nat i'))
                    then Inr (Some (g ! nat i' ! nat j'))
                    else Inr None))"

text \<open>
  \<open>g[x][y] = v\<close> as a write: it throws when \<open>g[x]\<close> is \<open>undefined\<close>, overwrites
  inside the row and appends at the end of the row.
\<close>

definition write_cell :: "grid \<Rightarrow> int \<Rightarrow> int \<Rightarrow> int \<Rightarrow> js_error + grid" where
  "write_cell g x y v =
     (if x < 0 \<or> int (length g) \<le> x then Inl TypeError
      else if 0 \<le> y \<and> y < int (length (g ! nat x))
        then Inr (g[nat x := (g ! nat x)[nat y := v]])
      else if y = int (length (g ! nat x))
        then Inr (g[nat x := g ! nat x @ [v]])
      else Inl OutsideModel)"

text \<open>
  \<open>Array(n).fill(0)\<close>: \<open>Array\<close> throws a \<open>RangeError\<close> for a length that is
  negative or above \<open>2^32 - 1\<close>.
\<close>

definition new_array :: "int \<Rightarrow> js_error + int list" where
  "new_array n =
     (if n < 0 \<or> 4294967296 \<le> n then Inl RangeError else Inr (replicate (nat n) 0))"

text \<open>
  \<open>Array(m).fill(0).map(() => Array(n).fill(0))\<close>: the callback that builds a row
  only runs when there is a row to build.
\<close>

definition new_grid :: "int \<Rightarrow> int \<Rightarrow> js_error + grid" where
  "new_grid m n =
     (case new_array m of
        Inl e \<Rightarrow> Inl e
      | Inr outer \<Rightarrow>
          if outer = [] then Inr []
          else (case new_array n of
                  Inl e \<Rightarrow> Inl e
                | Inr row \<Rightarrow> Inr (map (\<lambda>_. row) outer)))"

text \<open>
  A \<open>for\<close> loop over the indices \<open>xs\<close> with the loop's variables as the state
  \<open>st\<close>; an exception in the body ends the loop.
\<close>

fun for_each :: "'i list \<Rightarrow> ('i \<Rightarrow> 's \<Rightarrow> js_error + 's) \<Rightarrow> 's \<Rightarrow> js_error + 's" where
  "for_each [] body st = Inr st"
| "for_each (x # xs) body st =
     (case body x st of Inl e \<Rightarrow> Inl e | Inr st' \<Rightarrow> for_each xs body st')"

subsection \<open>The neighbour census\<close>

definition getNeighbors_cell ::
  "params \<Rightarrow> grid \<Rightarrow> int \<Rightarrow> int \<Rightarrow> int \<Rightarrow> int \<Rightarrow> int \<times> int \<Rightarrow> js_error + int \<times> int" where
  "getNeighbors_cell p g x y i j st =
     (case st of (infected, tot) \<Rightarrow>
        if i \<noteq> x \<or> j \<noteq> y then
          (case read_cell g (js_rem (i + par_M p) (par_M p)) (js_rem (j + par_N p) (par_N p)) of
             Inl e \<Rightarrow> Inl e
           | Inr c \<Rightarrow> Inr (if c = Some 1 then infected + 1 else infected, tot + 1))
        else Inr (infected, tot))"

definition getNeighbors ::
  "params \<Rightarrow> grid \<Rightarrow> int \<Rightarrow> int \<Rightarrow> int \<Rightarrow> js_error + int \<times> int" where
  "getNeighbors p g x y radius =
     for_each [x - radius .. x + radius]
       (\<lambda>i. for_each [y - radius .. y + radius] (getNeighbors_cell p g x y i))
       (0, 0)"

subsection \<open>One synchronous step\<close>

text \<open>
  \<open>infected > 0 ? params.beta * (infected / total) : 0\<close>. The guard keeps the
  division away from a zero divisor; HOL's \<open>x / 0 = 0\<close> is never reached.
\<close>

definition infectionProb :: "params \<Rightarrow> int \<Rightarrow> int \<Rightarrow> real" where
  "infectionProb p infected tot =
     (if infected > 0 then par_beta p * (real_of_int infected / real_of_int tot) else 0)"

text \<open>
  The body of the two loops of \<open>step\<close> at the cell \<open>(i, j)\<close>; the loop's state is
  \<open>newGrid\<close> and the random source.
\<close>

definition step_cell ::
  "params \<Rightarrow> grid \<Rightarrow> int \<Rightarrow> int \<Rightarrow> grid \<times> world \<Rightarrow> js_error + grid \<times> world" where
  "step_cell p currentGrid i j st =
     (case st of (newGrid, w) \<Rightarrow>
        (case read_cell currentGrid (Some i) (Some j) of
           Inl e \<Rightarrow> Inl e
         | Inr c \<Rightarrow>
             if c = Some 2 then
               (case write_cell newGrid i j 2 of
                  Inl e \<Rightarrow> Inl e
                | Inr g' \<Rightarrow> Inr (g', w))
             else if c = Some 1 then
               (case Math_random w of (u, w') \<Rightarrow>
                  (case write_cell newGrid i j (if u < par_alpha p then 2 else 1) of
                     Inl e \<Rightarrow> Inl e
                   | Inr g' \<Rightarrow> Inr (g', w')))
             else
               (case getNeighbors p currentGrid i j (par_r p) of
                  Inl e \<Rightarrow> Inl e
                | Inr (infected, tot) \<Rightarrow>
                    (case Math_random w of (u, w') \<Rightarrow>
                       (case write_cell newGrid i j
                               (if u < infectionProb p infected tot then 1 else 0) of
                          Inl e \<Rightarrow> Inl e
                        | Inr g' \<Rightarrow> Inr (g', w'))))))"

definition step :: "params \<Rightarrow> grid \<Rightarrow> world \<Rightarrow> js_error + grid \<times> world" where
  "step p currentGrid w =
     (case new_grid (par_M p) (par_N p) of
        Inl e \<Rightarrow> Inl e
      | Inr newGrid \<Rightarrow>
          for_each [0 .. par_M p - 1]
            (\<lambda>i. for_each [0 .. par_N p - 1] (step_cell p currentGrid i))
            (newGrid, w))"

subsection \<open>Counting the states\<close>

definition countStates_cell ::
  "grid \<Rightarrow> int \<Rightarrow> int \<Rightarrow> int \<times> int \<times> int \<Rightarrow> js_error + int \<times> int \<times> int" where
  "countStates_cell g x y st =
     (case st of (s, i, r) \<Rightarrow>
        (case read_cell g (Some x) (Some y) of
           Inl e \<Rightarrow> Inl e
         | Inr c \<Rightarrow>
             Inr (if c = Some 0 then (s + 1, i, r)
                  else if c = Some 1 then (s, i + 1, r)
                  else (s, i, r + 1))))"

definition countStates :: "params \<Rightarrow> grid \<Rightarrow> js_error + int \<times> int \<times> int" where
  "countStates p g =
     for_each [0 .. par_M p - 1]
       (\<lambda>x. for_each [0 .. par_N p - 1] (countStates_cell g x))
       (0, 0, 0)"

subsection \<open>The seeded initial grid\<close>

text \<open>
  \<open>seedrandom\<close> is a library outside the repository: it is a parameter, the function
  from a seed to the sequence of numbers the generator made from that seed returns.
  \<open>makeInitialGrid\<close> makes its generator anew, by \<open>seedrandom(initSeed)\<close>, each time
  it is called, and shares it with no other call: every call reads the sequence from
  its first draw, and the position \<open>k\<close> in the sequence is a variable of the loop.
  The \<open>while\<close> loop of \<open>makeInitialGrid\<close> draws a pair of coordinates per round
  (the draws \<open>k\<close> and \<open>k + 1\<close> of the sequence) and may run forever: not returning is
  \<open>None\<close>. The keys \<open>`${x},${y}`\<close> of the set \<open>used\<close> are the pairs \<open>(x, y)\<close>.
  The product \<open>rng() * params.M\<close> is a product of real numbers here; the rounded
  product of doubles can differ from it by the last bit, but for a draw in \<open>[0, 1)\<close>
  it too is at least 0 and below \<open>M\<close>, so the index lies in the same range.
\<close>

definition initSeed :: string where
  "initSeed = ''grid-init-12345''"

partial_function (option) makeInitialGrid_loop ::
  "(nat \<Rightarrow> real) \<Rightarrow> int \<Rightarrow> int \<Rightarrow> int \<Rightarrow> nat \<Rightarrow> grid \<Rightarrow> (int \<times> int) set \<Rightarrow> int
     \<Rightarrow> (js_error + grid) option" where
  "makeInitialGrid_loop rng m n i0 k g used placed =
     (if placed < i0 then
        (let x = \<lfloor>rng k * real_of_int m\<rfloor>;
             y = \<lfloor>rng (k + 1) * real_of_int n\<rfloor>
         in if (x, y) \<notin> used then
              (case write_cell g x y 1 of
                 Inl e \<Rightarrow> Some (Inl e)
               | Inr g' \<Rightarrow>
                   makeInitialGrid_loop rng m n i0 (k + 2) g' (insert (x, y) used) (placed + 1))
            else makeInitialGrid_loop rng m n i0 (k + 2) g used placed)
      else Some (Inr g))"

declare makeInitialGrid_loop.simps [code]

definition makeInitialGrid :: "(string \<Rightarrow> nat \<Rightarrow> real) \<Rightarrow> params \<Rightarrow> (js_error + grid) option" where
  "makeInitialGrid seedrandom p =
     (case new_grid (par_M p) (par_N p) of
        Inl e \<Rightarrow> Some (Inl e)
      | Inr g \<Rightarrow>
          makeInitialGrid_loop (seedrandom initSeed) (par_M p) (par_N p) (par_I0 p) 0 g {} 0)"

subsection \<open>The component's state\<close>

record StepRecord =
  rec_t :: int
  rec_s :: int
  rec_i :: int
  rec_r :: int

text \<open>
  The state of the component next to \<open>params\<close>: the React state \<open>grid\<close>,
  \<open>history\<close>, \<open>time\<close>, \<open>isRunning\<close>, and the refs \<open>initGridRef\<close> and
  \<open>animationRef\<close>. \<open>null\<close> is \<open>None\<close>.
\<close>

record component =
  isRunning :: bool
  grid :: "grid option"
  history :: "StepRecord list"
  time :: int
  animationRef :: "grid list"
  initGridRef :: "grid option"

text \<open>
  \<open>initializeGrid\<close>: the initial grid is built once and kept in \<open>initGridRef\<close>; the
  visible grid is a copy of it (a copy of a value is the value). The function runs in
  the world of the page and makes no call of \<open>Math.random()\<close>: it hands the world
  on as it got it.
\<close>

definition initializeGrid ::
  "(string \<Rightarrow> nat \<Rightarrow> real) \<Rightarrow> params \<Rightarrow> component \<Rightarrow> world
     \<Rightarrow> (js_error + component \<times> world) option" where
  "initializeGrid seedrandom p c w =
     (case (case initGridRef c of
              None \<Rightarrow> makeInitialGrid seedrandom p
            | Some g \<Rightarrow> Some (Inr g)) of
        None \<Rightarrow> None
      | Some (Inl e) \<Rightarrow> Some (Inl e)
      | Some (Inr g) \<Rightarrow>
          Some (Inr (c\<lparr>initGridRef := Some g, grid := Some g, history := [], time := 0,
                       animationRef := []\<rparr>, w)))"

subsection \<open>The visible run\<close>

text \<open>
  The callback of the timer that the effect on \<open>[isRunning, grid, time]\<close> sets.
\<close>

definition timer_callback ::
  "params \<Rightarrow> component \<Rightarrow> world \<Rightarrow> js_error + component \<times> world" where
  "timer_callback p c w =
     (case grid c of
        None \<Rightarrow> Inl TypeError
      | Some g \<Rightarrow>
          (case step p g w of
             Inl e \<Rightarrow> Inl e
           | Inr (newGrid, w') \<Rightarrow>
               (case countStates p newGrid of
                  Inl e \<Rightarrow> Inl e
                | Inr (s, i, r) \<Rightarrow>
                    Inr (c\<lparr>grid := Some newGrid,
                           history := history c @ [\<lparr>rec_t = time c, rec_s = s, rec_i = i, rec_r = r\<rparr>],
                           time := time c + 1,
                           animationRef := animationRef c @ [newGrid]\<rparr>, w'))))"

text \<open>
  The effect runs again after every change of \<open>grid\<close> and \<open>time\<close>, until it finds the
  run paused, no grid, or \<open>time >= params.T\<close>.
\<close>

function visible_run :: "params \<Rightarrow> component \<Rightarrow> world \<Rightarrow> js_error + component \<times> world" where
  "visible_run p c w =
     (if \<not> isRunning c \<or> grid c = None \<or> par_T p \<le> time c then Inr (c\<lparr>isRunning := False\<rparr>, w)
      else (case timer_callback p c w of
              Inl e \<Rightarrow> Inl e
            | Inr (c', w') \<Rightarrow> visible_run p c' w'))"
  by pat_completeness auto
termination
proof (relation "measure (\<lambda>(p, c, w). nat (par_T p - time c))")
  show "wf (measure (\<lambda>(p, c, w). nat (par_T p - time c)))" by simp
next
  fix p c w x2 x y
  assume "\<not> (\<not> isRunning c \<or> grid c = None \<or> par_T p \<le> time c)"
    and "timer_callback p c w = Inr x2" and "(x, y) = x2"
  then have "time x = time c + 1" and "time c < par_T p"
    by (auto simp: timer_callback_def split: option.splits sum.splits prod.splits)
  then show "((p, x, y), p, c, w) \<in> measure (\<lambda>(p, c, w). nat (par_T p - time c))"
    by simp
qed

subsection \<open>Headless runs and the exported means\<close>

definition runOnceNoAnimate_body ::
  "params \<Rightarrow> int \<Rightarrow> grid \<times> StepRecord list \<times> world
     \<Rightarrow> js_error + grid \<times> StepRecord list \<times> world" where
  "runOnceNoAnimate_body p t st =
     (case st of (g, hist, w) \<Rightarrow>
        (case countStates p g of
           Inl e \<Rightarrow> Inl e
         | Inr (s, i, r) \<Rightarrow>
             (let hist' = hist @ [\<lparr>rec_t = t, rec_s = s, rec_i = i, rec_r = r\<rparr>]
              in if t < par_T p then
                   (case step p g w of
                      Inl e \<Rightarrow> Inl e
                    | Inr (g', w') \<Rightarrow> Inr (g', hist', w'))
                 else Inr (g, hist', w))))"

definition runOnceNoAnimate ::
  "params \<Rightarrow> grid option \<Rightarrow> world \<Rightarrow> js_error + StepRecord list \<times> world" where
  "runOnceNoAnimate p init w =
     (case init of
        None \<Rightarrow> Inl TypeError
      | Some g \<Rightarrow>
          (case for_each [0 .. par_T p] (runOnceNoAnimate_body p) (g, [], w) of
             Inl e \<Rightarrow> Inl e
           | Inr (g', hist, w') \<Rightarrow> Inr (hist, w')))"

record run =
  run_id :: int
  run_t :: "int list"
  run_s :: "int list"
  run_i :: "int list"
  run_r :: "int list"

text \<open>
  \<open>v / Nexp\<close>: a zero divisor gives no finite number (\<open>NaN\<close> or an infinity), here
  \<open>None\<close>. The quotient of two integers is idealised as a real number.
\<close>

definition js_divide :: "int \<Rightarrow> int \<Rightarrow> real option" where
  "js_divide v d = (if d = 0 then None else Some (real_of_int v / real_of_int d))"

record mean =
  mean_t :: "int list"
  mean_s :: "real option list"
  mean_i :: "real option list"
  mean_r :: "real option list"

record payload =
  meta_params :: params
  meta_Nexp :: int
  meta_seed_init :: string
  runs :: "run list"
  mean :: mean

text \<open>
  \<open>accS[t] += hist[t].s\<close> and its two siblings. The accumulators have \<open>T + 1\<close>
  entries and \<open>t\<close> runs over \<open>0..T\<close>, so the writes stay inside them; \<open>hist[t]\<close> is
  \<open>undefined\<close> outside the history, and reading its field throws.
\<close>

definition accumulate ::
  "StepRecord list \<Rightarrow> int \<Rightarrow> int list \<times> int list \<times> int list
     \<Rightarrow> js_error + int list \<times> int list \<times> int list" where
  "accumulate hist t acc =
     (case acc of (accS, accI, accR) \<Rightarrow>
        if t < 0 \<or> int (length hist) \<le> t then Inl TypeError
        else Inr (accS[nat t := accS ! nat t + rec_s (hist ! nat t)],
                  accI[nat t := accI ! nat t + rec_i (hist ! nat t)],
                  accR[nat t := accR ! nat t + rec_r (hist ! nat t)]))"

definition exportNexpJSON_run ::
  "params \<Rightarrow> grid option \<Rightarrow> int
     \<Rightarrow> run list \<times> (int list \<times> int list \<times> int list) \<times> world
     \<Rightarrow> js_error + run list \<times> (int list \<times> int list \<times> int list) \<times> world" where
  "exportNexpJSON_run p init k st =
     (case st of (rs, acc, w) \<Rightarrow>
        (case runOnceNoAnimate p init w of
           Inl e \<Rightarrow> Inl e
         | Inr (hist, w') \<Rightarrow>
             (case for_each [0 .. par_T p] (accumulate hist) acc of
                Inl e \<Rightarrow> Inl e
              | Inr acc' \<Rightarrow>
                  Inr (rs @ [\<lparr>run_id = k, run_t = map rec_t hist, run_s = map rec_s hist,
                               run_i = map rec_i hist, run_r = map rec_r hist\<rparr>],
                       acc', w'))))"

text \<open>
  \<open>exportNexpJSON\<close> once \<open>initGridRef.current\<close> is set; the payload is what the
  function hands to the download.
\<close>

definition exportNexpJSON_payload ::
  "params \<Rightarrow> int \<Rightarrow> grid option \<Rightarrow> world \<Rightarrow> js_error + payload \<times> world" where
  "exportNexpJSON_payload p Nexp init w =
     (case new_array (par_T p + 1) of
        Inl e \<Rightarrow> Inl e
      | Inr acc0 \<Rightarrow>
          (case for_each [0 .. Nexp - 1] (exportNexpJSON_run p init) ([], (acc0, acc0, acc0), w) of
             Inl e \<Rightarrow> Inl e
           | Inr (rs, (accS, accI, accR), w') \<Rightarrow>
               Inr (\<lparr>meta_params = p, meta_Nexp = Nexp, meta_seed_init = initSeed,
                      runs = rs,
                      mean = \<lparr>mean_t = [0 .. par_T p],
                               mean_s = map (\<lambda>v. js_divide v Nexp) accS,
                               mean_i = map (\<lambda>v. js_divide v Nexp) accI,
                               mean_r = map (\<lambda>v. js_divide v Nexp) accR\<rparr>\<rparr>, w')))"

definition exportNexpJSON ::
  "(string \<Rightarrow> nat \<Rightarrow> real) \<Rightarrow> params \<Rightarrow> int \<Rightarrow> component \<Rightarrow> world
     \<Rightarrow> (js_error + payload \<times> component \<times> world) option" where
  "exportNexpJSON seedrandom p Nexp c w =
     (case (case initGridRef c of
              None \<Rightarrow> makeInitialGrid seedrandom p
            | Some g \<Rightarrow> Some (Inr g)) of
        None \<Rightarrow> None
      | Some (Inl e) \<Rightarrow> Some (Inl e)
      | Some (Inr g) \<Rightarrow>
          (case exportNexpJSON_payload p Nexp (Some g) w of
             Inl e \<Rightarrow> Some (Inl e)
           | Inr (pl, w') \<Rightarrow> Some (Inr (pl, c\<lparr>initGridRef := Some g\<rparr>, w'))))"

subsection \<open>The unseeded initializer of App.jsx\<close>

text \<open>
  The earlier variant of the component, \<open>App.jsx\<close>, has the same \<open>getNeighbors\<close>,
  \<open>step\<close> and \<open>countStates\<close>; its \<open>initializeGrid\<close> draws \<open>I0\<close> cells from
  \<open>Math.random()\<close> and does not look whether a cell was drawn before.
\<close>

definition App_initializeGrid_body :: "params \<Rightarrow> int \<Rightarrow> grid \<times> world \<Rightarrow> js_error + grid \<times> world" where
  "App_initializeGrid_body p i st =
     (case st of (newGrid, w) \<Rightarrow>
        (case Math_random w of (u, w') \<Rightarrow>
           (case Math_random w' of (v, w'') \<Rightarrow>
              (case write_cell newGrid \<lfloor>u * real_of_int (par_M p)\<rfloor> \<lfloor>v * real_of_int (par_N p)\<rfloor> 1 of
                 Inl e \<Rightarrow> Inl e
               | Inr g' \<Rightarrow> Inr (g', w'')))))"

definition App_initializeGrid :: "params \<Rightarrow> world \<Rightarrow> js_error + grid \<times> world" where
  "App_initializeGrid p w =
     (case new_grid (par_M p) (par_N p) of
        Inl e \<Rightarrow> Inl e
      | Inr newGrid \<Rightarrow> for_each [0 .. par_I0 p - 1] (App_initializeGrid_body p) (newGrid, w))"

subsection \<open>Well-formed grids and cell counts\<close>

text \<open>
  The grids the component holds have \<open>M\<close> rows of \<open>N\<close> cells, each 0, 1 or 2.
  \<open>count_cells P g\<close> is the number of cells of \<open>g\<close> that satisfy \<open>P\<close>.
\<close>

definition grid_dims :: "params \<Rightarrow> grid \<Rightarrow> bool" where
  "grid_dims p g \<longleftrightarrow>
     int (length g) = par_M p \<and> list_all (\<lambda>row. int (length row) = par_N p) g"

definition cells_valid :: "grid \<Rightarrow> bool" where
  "cells_valid g \<longleftrightarrow> list_all (list_all (\<lambda>c. c = 0 \<or> c = 1 \<or> c = 2)) g"

definition count_cells :: "(int \<Rightarrow> bool) \<Rightarrow> grid \<Rightarrow> nat" where
  "count_cells P g = length (filter P (concat g))"

text \<open>
  What \<open>step\<close> may do to one cell: a recovered cell stays recovered, an infected
  cell stays infected or recovers, every other cell ends susceptible or infected.
\<close>

definition cell_step :: "int \<Rightarrow> int \<Rightarrow> bool" where
  "cell_step c c' \<longleftrightarrow>
     (if c = 2 then c' = 2 else if c = 1 then c' = 1 \<or> c' = 2 else c' = 0 \<or> c' = 1)"

text \<open>
  A history of a run from the grid \<open>g0\<close>: the record at index \<open>k\<close> is labelled
  \<open>t = k\<close>, its counts add up to \<open>M * N\<close>, and the first record holds the counts of
  \<open>g0\<close>. In a monotone history the recovered, and the infected and recovered together,
  never decrease.
\<close>

definition hist_ok :: "params \<Rightarrow> grid \<Rightarrow> StepRecord list \<Rightarrow> bool" where
  "hist_ok p g0 hist \<longleftrightarrow>
     (\<forall>k < length hist. rec_t (hist ! k) = int k
        \<and> rec_s (hist ! k) + rec_i (hist ! k) + rec_r (hist ! k) = par_M p * par_N p)
     \<and> (hist \<noteq> [] \<longrightarrow> countStates p g0 = Inr (rec_s (hist ! 0), rec_i (hist ! 0), rec_r (hist ! 0)))"

definition hist_mono :: "StepRecord list \<Rightarrow> bool" where
  "hist_mono hist \<longleftrightarrow>
     (\<forall>k. Suc k < length hist \<longrightarrow>
        rec_r (hist ! k) \<le> rec_r (hist ! Suc k)
        \<and> rec_i (hist ! k) + rec_r (hist ! k) \<le> rec_i (hist ! Suc k) + rec_r (hist ! Suc k))"

subsection \<open>The seeded sequence\<close>

text \<open>
  The generator that \<open>seedrandom\<close> returns yields doubles in \<open>[0, 1)\<close>
  (\<open>unit_draws\<close>). Round \<open>j\<close> of the loop of \<open>makeInitialGrid\<close> reads the draws
  \<open>2j\<close> and \<open>2j + 1\<close> and gets the cell \<open>coord rng m n j\<close>. \<open>marks g used\<close> says that
  the infected cells of \<open>g\<close> are those of \<open>used\<close> and every other cell is susceptible.
\<close>

definition unit_draws :: "(nat \<Rightarrow> real) \<Rightarrow> bool" where
  "unit_draws rng \<longleftrightarrow> (\<forall>k. 0 \<le> rng k \<and> rng k < 1)"

definition coord :: "(nat \<Rightarrow> real) \<Rightarrow> int \<Rightarrow> int \<Rightarrow> nat \<Rightarrow> int \<times> int" where
  "coord rng m n j = (\<lfloor>rng (2 * j) * real_of_int m\<rfloor>, \<lfloor>rng (2 * j + 1) * real_of_int n\<rfloor>)"

definition marks :: "grid \<Rightarrow> (int \<times> int) set \<Rightarrow> bool" where
  "marks g used \<longleftrightarrow>
     (\<forall>x y. 0 \<le> x \<and> x < int (length g) \<and> 0 \<le> y \<and> y < int (length (g ! nat x)) \<longrightarrow>
        g ! nat x ! nat y = (if (x, y) \<in> used then 1 else 0))"

text \<open>
  The state of the loop of \<open>makeInitialGrid\<close> before round \<open>j\<close>: \<open>used\<close> holds the
  cells drawn so far, \<open>placed\<close> is their number, and \<open>g\<close> is an \<open>m\<close> by \<open>n\<close> grid
  that is infected exactly there.
\<close>

definition loop_inv ::
  "(nat \<Rightarrow> real) \<Rightarrow> int \<Rightarrow> int \<Rightarrow> nat \<Rightarrow> grid \<Rightarrow> (int \<times> int) set \<Rightarrow> int \<Rightarrow> bool" where
  "loop_inv rng m n j g used placed \<longleftrightarrow>
     used = coord rng m n ` {..<j} \<and> placed = int (card used)
     \<and> int (length g) = m \<and> list_all (\<lambda>row. int (length row) = n) g
     \<and> marks g used
     \<and> count_cells (\<lambda>c. c = 1) g = card used
     \<and> count_cells (\<lambda>c. c \<noteq> 0 \<and> c \<noteq> 1) g = 0"

subsection \<open>Sums over the runs\<close>

text \<open>
  \<open>column_sum f rs t\<close> is the sum over the runs \<open>rs\<close> of the entry \<open>t\<close> of their
  array \<open>f\<close> (one of \<open>run_s\<close>, \<open>run_i\<close>, \<open>run_r\<close>).
\<close>

definition column_sum :: "(run \<Rightarrow> int list) \<Rightarrow> run list \<Rightarrow> nat \<Rightarrow> int" where
  "column_sum f rs t = sum_list (map (\<lambda>run. f run ! t) rs)"

subsection \<open>Concrete inputs\<close>

text \<open>
  A small configuration on which the statements below are instantiated: a grid of
  2 rows and 3 columns with one infected and one recovered cell, and a random source
  whose draws alternate between 0 and 1/2.
\<close>

definition ex_params :: params where
  "ex_params = \<lparr>par_M = 2, par_N = 3, par_I0 = 2, par_T = 2, par_r = 1,
                 par_beta = 4/5, par_alpha = 1/10\<rparr>"

definition ex_grid :: grid where
  "ex_grid = [[0, 1, 0], [0, 0, 2]]"

definition ex_world :: world where
  "ex_world = \<lparr>draws = (\<lambda>k. if even k then 0 else 1/2), calls = 0\<rparr>"

text \<open>
  A stand-in for \<open>seedrandom\<close>: whatever the seed, every draw is 0 but the fourth,
  which is 1/2. On the 2 by 3 grid its first two rounds give the cells \<open>(0, 0)\<close> and
  \<open>(0, 1)\<close>.
\<close>

definition ex_seedrandom :: "string \<Rightarrow> nat \<Rightarrow> real" where
  "ex_seedrandom seed = (\<lambda>k. if k = 3 then 1/2 else 0)"

text \<open>
  A second stand-in for \<open>seedrandom\<close>, one that reads its seed: every draw is 0 but
  the one at the index \<open>length seed - 10\<close>, which is 1/2. The seed of
  \<open>makeInitialGrid\<close> has 15 characters: on the 2 by 3 grid the rounds give the cells
  \<open>(0, 0)\<close>, \<open>(0, 0)\<close> again, and \<open>(0, 1)\<close>.
\<close>

definition len_seedrandom :: "string \<Rightarrow> nat \<Rightarrow> real" where
  "len_seedrandom seed = (\<lambda>k. if k = length seed - 10 then 1/2 else 0)"

text \<open>
  The component after \<open>initializeGrid\<close>, with the visible run started.
\<close>

definition ex_component :: component where
  "ex_component = \<lparr>isRunning = True, grid = Some ex_grid, history = [], time = 0,
                    animationRef = [], initGridRef = Some ex_grid\<rparr>"

text \<open>
  A configuration that the sliders of the page can reach: the smallest grid
  (20 by 20) and the shortest run (\<open>T = 50\<close>), with one infected cell.
\<close>

definition ui_params :: params where
  "ui_params = \<lparr>par_M = 20, par_N = 20, par_I0 = 1, par_T = 50, par_r = 1,
                 par_beta = 4/5, par_alpha = 1/10\<rparr>"

definition ui_grid :: grid where
  "ui_grid = (replicate 20 (replicate 20 0))[0 := (replicate 20 0)[0 := 1]]"

definition ui_component :: component where
  "ui_component = \<lparr>isRunning = True, grid = Some ui_grid, history = [], time = 0,
                    animationRef = [], initGridRef = Some ui_grid\<rparr>"

section \<open>Properties\<close>

subsection \<open>Loops over a range of indices\<close>

lemma for_each_range_partial:
  assumes "I a st"
    and "\<And>k s s'. a \<le> k \<Longrightarrow> k \<le> b \<Longrightarrow> I k s \<Longrightarrow> body k s = Inr s' \<Longrightarrow> I (k + 1) s'"
    and "a \<le> b + 1"
    and "for_each [a..b] body st = Inr st'"
  shows "I (b + 1) st'"
  using assms
proof (induction "nat (b + 1 - a)" arbitrary: a st)
  case 0
  then have "a = b + 1" by simp
  with 0 show ?case by simp
next
  case (Suc n)
  then have le: "a \<le> b" by simp
  have unf: "[a..b] = a # [a + 1..b]" using le by (rule upto_rec1)
  obtain s1 where b1: "body a st = Inr s1" and rest: "for_each [a + 1..b] body s1 = Inr st'"
    using Suc.prems(4) unfolding unf by (auto split: sum.splits)
  have i1: "I (a + 1) s1" using Suc.prems(2)[OF _ le Suc.prems(1) b1] by simp
  have n: "n = nat (b + 1 - (a + 1))" using Suc.hyps(2) by simp
  show ?case
  proof (rule Suc.hyps(1)[OF n i1 _ _ rest])
    fix k s s' assume "a + 1 \<le> k" "k \<le> b" "I k s" "body k s = Inr s'"
    then show "I (k + 1) s'" using Suc.prems(2)[of k s s'] by simp
  next
    show "a + 1 \<le> b + 1" using le by simp
  qed
qed

lemma for_each_range_total:
  assumes "I a st"
    and "\<And>k s. a \<le> k \<Longrightarrow> k \<le> b \<Longrightarrow> I k s \<Longrightarrow> \<exists>s'. body k s = Inr s' \<and> I (k + 1) s'"
    and "a \<le> b + 1"
  shows "\<exists>st'. for_each [a..b] body st = Inr st' \<and> I (b + 1) st'"
  using assms
proof (induction "nat (b + 1 - a)" arbitrary: a st)
  case 0
  then have "a = b + 1" by simp
  with 0 show ?case by simp
next
  case (Suc n)
  then have le: "a \<le> b" by simp
  have unf: "[a..b] = a # [a + 1..b]" using le by (rule upto_rec1)
  obtain s1 where b1: "body a st = Inr s1" and i1: "I (a + 1) s1"
    using Suc.prems(2)[OF _ le Suc.prems(1)] by auto
  have n: "n = nat (b + 1 - (a + 1))" using Suc.hyps(2) by simp
  have "\<exists>st'. for_each [a + 1..b] body s1 = Inr st' \<and> I (b + 1) st'"
  proof (rule Suc.hyps(1)[OF n i1])
    fix k s assume "a + 1 \<le> k" "k \<le> b" "I k s"
    then show "\<exists>s'. body k s = Inr s' \<and> I (k + 1) s'" using Suc.prems(2)[of k s] by simp
  next
    show "a + 1 \<le> b + 1" using le by simp
  qed
  then show ?case unfolding unf using b1 by simp
qed

lemma for_each_empty_range: "b < a \<Longrightarrow> for_each [a..b] body st = Inr st"
  by simp

lemma for_each_range_progress:
  assumes "I a st"
    and "\<And>k s s'. a \<le> k \<Longrightarrow> k \<le> b \<Longrightarrow> I k s \<Longrightarrow> body k s = Inr s' \<Longrightarrow> I (k + 1) s'"
    and "\<And>k s. a \<le> k \<Longrightarrow> k \<le> b \<Longrightarrow> I k s \<Longrightarrow> \<exists>s'. body k s = Inr s'"
    and "a \<le> b + 1"
  shows "\<exists>st'. for_each [a..b] body st = Inr st'"
proof -
  have "\<exists>st'. for_each [a..b] body st = Inr st' \<and> I (b + 1) st'"
    by (rule for_each_range_total[where I = I, OF assms(1) _ assms(4)]) (metis assms(2,3))
  then show ?thesis by blast
qed

subsection \<open>The neighbour census\<close>

lemma getNeighbors_cell_step:
  assumes "getNeighbors_cell p g x y i j (ic, tc) = Inr (ic', tc')"
  shows "tc' = tc + (if i = x \<and> j = y then 0 else 1) \<and> ic \<le> ic' \<and> ic' - ic \<le> tc' - tc"
  using assms by (auto simp: getNeighbors_cell_def split: if_splits sum.splits)

lemma getNeighbors_row_partial:
  assumes ret: "for_each [y - radius..y + radius] (getNeighbors_cell p g x y i) (ic0, tc0) = Inr (ic, tc)"
    and r: "0 \<le> radius"
  shows "tc = tc0 + (2 * radius + 1) - (if i = x then 1 else 0) \<and> ic0 \<le> ic \<and> ic - ic0 \<le> tc - tc0"
proof -
  let ?I = "\<lambda>j st. snd st = tc0 + (j - (y - radius)) - (if i = x \<and> y < j then 1 else 0)
                    \<and> ic0 \<le> fst st \<and> fst st - ic0 \<le> snd st - tc0"
  have "?I (y + radius + 1) (ic, tc)"
  proof (rule for_each_range_partial[where I = ?I and body = "getNeighbors_cell p g x y i", OF _ _ _ ret])
    show "?I (y - radius) (ic0, tc0)" using r by simp
  next
    fix k s s'
    assume k: "y - radius \<le> k" "k \<le> y + radius" and inv: "?I k s"
      and b: "getNeighbors_cell p g x y i k s = Inr s'"
    obtain a b' where s: "s = (a, b')" by (cases s)
    obtain c d where s': "s' = (c, d)" by (cases s')
    from getNeighbors_cell_step[OF b[unfolded s s']] inv
    show "?I (k + 1) s'" unfolding s s' by (auto split: if_splits)
  next
    show "y - radius \<le> y + radius + 1" using r by simp
  qed
  then show ?thesis using r by (auto split: if_splits)
qed

lemma getNeighbors_partial:
  assumes ret: "getNeighbors p g x y radius = Inr (ic, tc)"
    and r: "0 \<le> radius"
  shows "tc = (2 * radius + 1) * (2 * radius + 1) - 1 \<and> 0 \<le> ic \<and> ic \<le> tc"
proof -
  let ?I = "\<lambda>k st. snd st = (k - (x - radius)) * (2 * radius + 1) - (if x < k then 1 else 0)
                    \<and> 0 \<le> fst st \<and> fst st \<le> snd st"
  have "?I (x + radius + 1) (ic, tc)"
  proof (rule for_each_range_partial[where I = ?I, OF _ _ _ ret[unfolded getNeighbors_def]])
    show "?I (x - radius) (0, 0)" using r by simp
  next
    fix k s s'
    assume k: "x - radius \<le> k" "k \<le> x + radius" and inv: "?I k s"
      and b: "for_each [y - radius..y + radius] (getNeighbors_cell p g x y k) s = Inr s'"
    obtain a b' where s: "s = (a, b')" by (cases s)
    obtain c d where s': "s' = (c, d)" by (cases s')
    from getNeighbors_row_partial[OF b[unfolded s s'] r] inv
    show "?I (k + 1) s'" unfolding s s' by (auto simp: algebra_simps split: if_splits)
  next
    show "x - radius \<le> x + radius + 1" using r by simp
  qed
  then show ?thesis using r by (auto simp: algebra_simps split: if_splits)
qed

lemma js_rem_nonneg: "0 \<le> a \<Longrightarrow> 0 < m \<Longrightarrow> js_rem a m = Some (a mod m)"
  by (cases "a = 0") (simp_all add: js_rem_def)

lemma getNeighbors_cell_returns:
  assumes "1 \<le> par_M p" "int (length g) = par_M p" "0 \<le> i + par_M p"
  shows "\<exists>s'. getNeighbors_cell p g x y i j s = Inr s'"
proof -
  have "js_rem (i + par_M p) (par_M p) = Some ((i + par_M p) mod par_M p)"
    using assms by (simp add: js_rem_nonneg)
  moreover have "0 \<le> (i + par_M p) mod par_M p" "(i + par_M p) mod par_M p < int (length g)"
    using assms by simp_all
  ultimately have "\<exists>c. read_cell g (js_rem (i + par_M p) (par_M p)) (js_rem (j + par_N p) (par_N p)) = Inr c"
    by (cases "js_rem (j + par_N p) (par_N p)") (simp_all add: read_cell_def)
  then obtain c where "read_cell g (js_rem (i + par_M p) (par_M p)) (js_rem (j + par_N p) (par_N p)) = Inr c" ..
  then show ?thesis by (cases s) (simp add: getNeighbors_cell_def)
qed

lemma getNeighbors_row_returns:
  assumes "1 \<le> par_M p" "int (length g) = par_M p" "0 \<le> i + par_M p"
  shows "\<exists>s'. for_each [a..b] (getNeighbors_cell p g x y i) s = Inr s'"
proof (cases "a \<le> b + 1")
  case True
  have "\<exists>st'. for_each [a..b] (getNeighbors_cell p g x y i) s = Inr st' \<and> True"
    by (rule for_each_range_total[where I = "\<lambda>_ _. True"])
       (use getNeighbors_cell_returns[OF assms] True in auto)
  then show ?thesis by simp
next
  case False
  then show ?thesis by simp
qed

lemma getNeighbors_returns:
  assumes "1 \<le> par_M p" "int (length g) = par_M p" "radius \<le> x + par_M p"
  shows "\<exists>res. getNeighbors p g x y radius = Inr res"
proof (cases "x - radius \<le> x + radius + 1")
  case True
  have "\<exists>st'. for_each [x - radius..x + radius]
          (\<lambda>i. for_each [y - radius..y + radius] (getNeighbors_cell p g x y i)) (0, 0) = Inr st' \<and> True"
  proof (rule for_each_range_total[where I = "\<lambda>_ _. True"])
    fix k s assume "x - radius \<le> k"
    then have "0 \<le> k + par_M p" using assms(3) by simp
    from getNeighbors_row_returns[OF assms(1,2) this]
    show "\<exists>s'. for_each [y - radius..y + radius] (getNeighbors_cell p g x y k) s = Inr s' \<and> True"
      by simp
  qed (use True in simp_all)
  then show ?thesis by (simp add: getNeighbors_def)
next
  case False
  then show ?thesis by (simp add: getNeighbors_def)
qed

text \<open>
  Claim C7, as stated, at a radius above the height of the grid: on a 2 x 2 grid with
  radius 3, the row index \<open>(i + M) % M\<close> of the first row of the neighbourhood of the
  cell \<open>(0, 0)\<close> is \<open>-1 % 2 = -1\<close>, \<open>grid[-1]\<close> is \<open>undefined\<close>, and the census
  throws instead of returning a total.
\<close>

theorem getNeighbors_throws_beyond_height:
  "getNeighbors \<lparr>par_M = 2, par_N = 2, par_I0 = 1, par_T = 0, par_r = 3, par_beta = 4/5, par_alpha = 1/10\<rparr>
     [[0, 0], [0, 0]] 0 0 3 = Inl TypeError"
  by code_simp

text \<open>
  Claim C7, amended: on every grid with \<open>M \<ge> 1\<close> rows, for every radius
  \<open>1 \<le> r \<le> M\<close> and every centre \<open>(x, y)\<close> with \<open>x \<ge> 0\<close>, rows and columns at the
  edges included, the census returns, and its total is \<open>(2r + 1)\<^sup>2 - 1\<close>.
\<close>

theorem getNeighbors_total:
  assumes "1 \<le> par_M p" and "int (length g) = par_M p"
    and "0 \<le> x" and "1 \<le> radius" and "radius \<le> par_M p"
  shows "\<exists>infected. getNeighbors p g x y radius = Inr (infected, (2 * radius + 1)\<^sup>2 - 1)"
proof -
  obtain ic tc where ret: "getNeighbors p g x y radius = Inr (ic, tc)"
    using getNeighbors_returns[of p g radius x y] assms by auto
  from getNeighbors_partial[OF ret] assms(4) have "tc = (2 * radius + 1)\<^sup>2 - 1"
    by (simp add: power2_eq_square)
  with ret show ?thesis by simp
qed

theorem getNeighbors_total_witness:
  "getNeighbors \<lparr>par_M = 2, par_N = 2, par_I0 = 1, par_T = 0, par_r = 1, par_beta = 4/5, par_alpha = 1/10\<rparr>
     [[0, 1], [0, 0]] 0 0 2 = Inr (6, 24)"
proof -
  have "\<exists>infected. getNeighbors \<lparr>par_M = 2, par_N = 2, par_I0 = 1, par_T = 0, par_r = 1, par_beta = 4/5, par_alpha = 1/10\<rparr>
     [[0, 1], [0, 0]] 0 0 2 = Inr (infected, (2 * 2 + 1)\<^sup>2 - 1)"
    by (rule getNeighbors_total) simp_all
  moreover have "fst (projr (getNeighbors \<lparr>par_M = 2, par_N = 2, par_I0 = 1, par_T = 0, par_r = 1, par_beta = 4/5, par_alpha = 1/10\<rparr>
     [[0, 1], [0, 0]] 0 0 2)) = 6" by code_simp
  ultimately show ?thesis by auto
qed

lemma census_bounds:
  assumes "1 \<le> radius" and "getNeighbors p g x y radius = Inr (infected, tot)"
    and "0 \<le> par_beta p" and "par_beta p \<le> 1"
  shows "0 \<le> infected \<and> infected \<le> tot \<and> 0 < tot
       \<and> 0 \<le> infectionProb p infected tot \<and> infectionProb p infected tot \<le> par_beta p
       \<and> infectionProb p infected tot \<le> 1
       \<and> 0 \<le> par_beta p * (real_of_int infected / real_of_int tot)
       \<and> par_beta p * (real_of_int infected / real_of_int tot) \<le> par_beta p"
proof -
  from getNeighbors_partial[OF assms(2)] assms(1)
  have t: "tot = (2 * radius + 1) * (2 * radius + 1) - 1" and i: "0 \<le> infected" "infected \<le> tot"
    by simp_all
  have "1 * 1 \<le> radius * radius" using assms(1) by (intro mult_mono) simp_all
  then have pos: "0 < tot" unfolding t using assms(1) by (simp add: algebra_simps)
  have f0: "0 \<le> real_of_int infected / real_of_int tot" using i pos by simp
  have f1: "real_of_int infected / real_of_int tot \<le> 1" using i pos by simp
  have b0: "0 \<le> par_beta p * (real_of_int infected / real_of_int tot)"
    using assms(3) f0 by (rule mult_nonneg_nonneg)
  have b1: "par_beta p * (real_of_int infected / real_of_int tot) \<le> par_beta p"
    using mult_left_mono[OF f1 assms(3)] by simp
  have p0: "0 \<le> infectionProb p infected tot" using b0 by (simp add: infectionProb_def)
  have p1: "infectionProb p infected tot \<le> par_beta p"
    using b1 assms(3) by (simp add: infectionProb_def)
  have p2: "infectionProb p infected tot \<le> 1" using p1 assms(4) by linarith
  show ?thesis using i pos b0 b1 p0 p1 p2 by blast
qed

text \<open>
  Claim C10, as stated, at a radius above the height of the grid: on a 3 x 3 grid with
  radius 5 the census of the centre cell \<open>(1, 1)\<close> reads the row \<open>(-4 + 3) % 3 = -1\<close>
  and throws. No census is returned, and \<open>step\<close>, which asks for the census of its
  first susceptible cell, throws before it has computed a probability.
\<close>

theorem census_throws_beyond_height:
  "getNeighbors \<lparr>par_M = 3, par_N = 3, par_I0 = 1, par_T = 1, par_r = 5, par_beta = 4/5, par_alpha = 1/10\<rparr>
     [[0, 0, 0], [0, 1, 0], [0, 0, 0]] 1 1 5 = Inl TypeError
   \<and> map_sum id fst (step \<lparr>par_M = 3, par_N = 3, par_I0 = 1, par_T = 1, par_r = 5, par_beta = 4/5, par_alpha = 1/10\<rparr>
     [[0, 0, 0], [0, 1, 0], [0, 0, 0]] ex_world) = Inl TypeError"
  by code_simp

text \<open>
  Claim C10, amended: for every grid with \<open>M\<close> rows, every cell \<open>(x, y)\<close> with
  \<open>x \<ge> 0\<close> and every radius \<open>1 \<le> r \<le> M\<close>, \<open>getNeighbors\<close> returns a census with
  \<open>0 \<le> infected \<le> total\<close> and \<open>total > 0\<close>; so, with \<open>beta\<close> in \<open>[0, 1]\<close>, the
  infection probability of \<open>step\<close> lies in \<open>[0, beta]\<close>, within \<open>[0, 1]\<close>, and so
  does \<open>beta * (infected / total)\<close> without the guard \<open>infected > 0\<close>: its divisor
  is not zero. At a larger radius the call can throw; whatever census it returns, at
  any radius \<open>r \<ge> 1\<close> on any grid, has the same bounds.
\<close>

theorem infection_probability_well_formed:
  assumes "1 \<le> radius" and "radius \<le> par_M p" and "int (length g) = par_M p" and "0 \<le> x"
    and "0 \<le> par_beta p" and "par_beta p \<le> 1"
  shows "(\<exists>infected tot. getNeighbors p g x y radius = Inr (infected, tot)
            \<and> 0 \<le> infected \<and> infected \<le> tot \<and> 0 < tot
            \<and> 0 \<le> infectionProb p infected tot \<and> infectionProb p infected tot \<le> par_beta p
            \<and> infectionProb p infected tot \<le> 1
            \<and> 0 \<le> par_beta p * (real_of_int infected / real_of_int tot)
            \<and> par_beta p * (real_of_int infected / real_of_int tot) \<le> par_beta p)
       \<and> (\<forall>g' x' y' r' infected tot.
             1 \<le> r' \<and> getNeighbors p g' x' y' r' = Inr (infected, tot) \<longrightarrow>
             0 \<le> infected \<and> infected \<le> tot \<and> 0 < tot
             \<and> 0 \<le> infectionProb p infected tot \<and> infectionProb p infected tot \<le> par_beta p
             \<and> infectionProb p infected tot \<le> 1
             \<and> 0 \<le> par_beta p * (real_of_int infected / real_of_int tot)
             \<and> par_beta p * (real_of_int infected / real_of_int tot) \<le> par_beta p)"
proof (rule conjI)
  have "1 \<le> par_M p" "radius \<le> x + par_M p" using assms(1,2,4) by simp_all
  from getNeighbors_returns[OF this(1) assms(3) this(2), of y]
  obtain infected tot where ret: "getNeighbors p g x y radius = Inr (infected, tot)"
    by (metis surj_pair)
  from census_bounds[OF assms(1) ret assms(5,6)] ret
  show "\<exists>infected tot. getNeighbors p g x y radius = Inr (infected, tot)
            \<and> 0 \<le> infected \<and> infected \<le> tot \<and> 0 < tot
            \<and> 0 \<le> infectionProb p infected tot \<and> infectionProb p infected tot \<le> par_beta p
            \<and> infectionProb p infected tot \<le> 1
            \<and> 0 \<le> par_beta p * (real_of_int infected / real_of_int tot)
            \<and> par_beta p * (real_of_int infected / real_of_int tot) \<le> par_beta p"
    by blast
next
  show "\<forall>g' x' y' r' infected tot.
             1 \<le> r' \<and> getNeighbors p g' x' y' r' = Inr (infected, tot) \<longrightarrow>
             0 \<le> infected \<and> infected \<le> tot \<and> 0 < tot
             \<and> 0 \<le> infectionProb p infected tot \<and> infectionProb p infected tot \<le> par_beta p
             \<and> infectionProb p infected tot \<le> 1
             \<and> 0 \<le> par_beta p * (real_of_int infected / real_of_int tot)
             \<and> par_beta p * (real_of_int infected / real_of_int tot) \<le> par_beta p"
    using census_bounds[OF _ _ assms(5,6)] by blast
qed


theorem infection_probability_well_formed_witness:
  "(1::int) \<le> 2 \<and> 2 \<le> par_M ex_params \<and> int (length ex_grid) = par_M ex_params
   \<and> 0 \<le> par_beta ex_params \<and> par_beta ex_params \<le> 1
   \<and> getNeighbors ex_params ex_grid 1 2 2 = Inr (4, 24)
   \<and> 0 \<le> infectionProb ex_params 4 24
   \<and> infectionProb ex_params 4 24 \<le> par_beta ex_params
   \<and> infectionProb ex_params 4 24 \<le> 1"
proof -
  have h: "(1::int) \<le> 2" "2 \<le> par_M ex_params" "int (length ex_grid) = par_M ex_params"
    "(0::int) \<le> 1" "0 \<le> par_beta ex_params" "par_beta ex_params \<le> 1"
    by (simp_all add: ex_params_def ex_grid_def)
  have r: "getNeighbors ex_params ex_grid 1 2 2 = Inr (4, 24)" by code_simp
  from infection_probability_well_formed[OF h, of 2, THEN conjunct1] r
  have "0 \<le> infectionProb ex_params 4 24 \<and> infectionProb ex_params 4 24 \<le> par_beta ex_params
        \<and> infectionProb ex_params 4 24 \<le> 1"
    by simp
  then show ?thesis using h r by simp
qed

subsection \<open>Counting the states\<close>

lemma read_cell_in_range:
  "0 \<le> x \<Longrightarrow> x < int (length g) \<Longrightarrow> 0 \<le> y \<Longrightarrow> y < int (length (g ! nat x))
   \<Longrightarrow> read_cell g (Some x) (Some y) = Inr (Some (g ! nat x ! nat y))"
  by (simp add: read_cell_def)

lemma take_nat_Suc:
  "0 \<le> k \<Longrightarrow> k < int (length xs) \<Longrightarrow> take (nat (k + 1)) xs = take (nat k) xs @ [xs ! nat k]"
  by (simp add: nat_add_distrib take_Suc_conv_app_nth)

lemma grid_dims_row:
  assumes "grid_dims p g" "0 \<le> x" "x < par_M p"
  shows "int (length (g ! nat x)) = par_N p"
proof -
  have "nat x < length g" using assms by (simp add: grid_dims_def nat_less_iff)
  then show ?thesis using assms(1) by (simp add: grid_dims_def list_all_length)
qed

lemma grid_dims_length: "grid_dims p g \<Longrightarrow> int (length g) = par_M p"
  by (simp add: grid_dims_def)

lemma countStates_row:
  assumes x: "0 \<le> x" "x < int (length g)" and n: "int (length (g ! nat x)) = n"
  shows "for_each [0..n - 1] (countStates_cell g x) (s0, i0, r0) =
           Inr (s0 + int (length (filter (\<lambda>c. c = 0) (g ! nat x))),
                i0 + int (length (filter (\<lambda>c. c = 1) (g ! nat x))),
                r0 + int (length (filter (\<lambda>c. c \<noteq> 0 \<and> c \<noteq> 1) (g ! nat x))))"
proof -
  let ?row = "g ! nat x"
  let ?val = "\<lambda>j. (s0 + int (length (filter (\<lambda>c. c = 0) (take (nat j) ?row))),
                i0 + int (length (filter (\<lambda>c. c = 1) (take (nat j) ?row))),
                r0 + int (length (filter (\<lambda>c. c \<noteq> 0 \<and> c \<noteq> 1) (take (nat j) ?row))))"
  let ?I = "\<lambda>j st. st = ?val j"
  have "\<exists>st'. for_each [0..n - 1] (countStates_cell g x) (s0, i0, r0) = Inr st' \<and> ?I (n - 1 + 1) st'"
  proof (rule for_each_range_total[where I = ?I])
    show "?I 0 (s0, i0, r0)" by simp
  next
    fix k s
    assume k: "0 \<le> k" "k \<le> n - 1" and inv: "?I k s"
    have kl: "k < int (length ?row)" using k n by simp
    have rd: "read_cell g (Some x) (Some k) = Inr (Some (?row ! nat k))"
      using x k kl by (simp add: read_cell_in_range)
    have "countStates_cell g x k s = Inr (?val (k + 1))"
      unfolding inv take_nat_Suc[OF k(1) kl] by (simp add: countStates_cell_def rd)
    then show "\<exists>s'. countStates_cell g x k s = Inr s' \<and> ?I (k + 1) s'" by simp
  next
    show "0 \<le> n - 1 + 1" using n by simp
  qed
  then show ?thesis using n by auto
qed

lemma concat_take_nat_Suc:
  "0 \<le> k \<Longrightarrow> k < int (length g) \<Longrightarrow> concat (take (nat (k + 1)) g) = concat (take (nat k) g) @ g ! nat k"
  by (simp add: take_nat_Suc)

lemma countStates_eq:
  assumes "grid_dims p g"
  shows "countStates p g =
           Inr (int (count_cells (\<lambda>c. c = 0) g), int (count_cells (\<lambda>c. c = 1) g),
                int (count_cells (\<lambda>c. c \<noteq> 0 \<and> c \<noteq> 1) g))"
proof -
  let ?val = "\<lambda>k. (int (count_cells (\<lambda>c. c = 0) (take (nat k) g)),
                    int (count_cells (\<lambda>c. c = 1) (take (nat k) g)),
                    int (count_cells (\<lambda>c. c \<noteq> 0 \<and> c \<noteq> 1) (take (nat k) g)))"
  let ?I = "\<lambda>k st. st = ?val k"
  have len: "int (length g) = par_M p" using assms by (rule grid_dims_length)
  have "\<exists>st'. for_each [0..par_M p - 1] (\<lambda>x. for_each [0..par_N p - 1] (countStates_cell g x)) (0, 0, 0)
          = Inr st' \<and> ?I (par_M p - 1 + 1) st'"
  proof (rule for_each_range_total[where I = ?I])
    show "?I 0 (0, 0, 0)" by (simp add: count_cells_def)
  next
    fix k s
    assume k: "0 \<le> k" "k \<le> par_M p - 1" and inv: "?I k s"
    have kl: "k < int (length g)" using k len by simp
    have n: "int (length (g ! nat k)) = par_N p" using assms k by (simp add: grid_dims_row)
    have "for_each [0..par_N p - 1] (countStates_cell g k) s = Inr (?val (k + 1))"
      unfolding inv countStates_row[OF k(1) kl n]
      by (simp add: count_cells_def concat_take_nat_Suc[OF k(1) kl])
    then show "\<exists>s'. for_each [0..par_N p - 1] (countStates_cell g k) s = Inr s' \<and> ?I (k + 1) s'"
      by simp
  next
    show "0 \<le> par_M p - 1 + 1" using len by simp
  qed
  then show ?thesis using len by (auto simp: countStates_def)
qed

lemma length_concat_dims:
  "list_all (\<lambda>row. int (length row) = n) g \<Longrightarrow> int (length (concat g)) = int (length g) * n"
  by (induction g) (simp_all add: algebra_simps)

lemma filter_three_way:
  "length (filter (\<lambda>c. c = (0::int)) xs) + length (filter (\<lambda>c. c = 1) xs)
     + length (filter (\<lambda>c. c \<noteq> 0 \<and> c \<noteq> 1) xs) = length xs"
  by (induction xs) auto

lemma count_cells_conservation:
  assumes "grid_dims p g"
  shows "int (count_cells (\<lambda>c. c = 0) g) + int (count_cells (\<lambda>c. c = 1) g)
           + int (count_cells (\<lambda>c. c \<noteq> 0 \<and> c \<noteq> 1) g) = par_M p * par_N p"
proof -
  have "int (length (concat g)) = par_M p * par_N p"
    using assms length_concat_dims[of "par_N p" g] by (simp add: grid_dims_def)
  moreover have "int (count_cells (\<lambda>c. c = 0) g) + int (count_cells (\<lambda>c. c = 1) g)
           + int (count_cells (\<lambda>c. c \<noteq> 0 \<and> c \<noteq> 1) g) = int (length (concat g))"
    unfolding count_cells_def using filter_three_way[of "concat g"] by linarith
  ultimately show ?thesis by simp
qed

subsection \<open>One synchronous step\<close>

lemma write_cell_in_range:
  "0 \<le> x \<Longrightarrow> x < int (length g) \<Longrightarrow> 0 \<le> y \<Longrightarrow> y < int (length (g ! nat x))
   \<Longrightarrow> write_cell g x y v = Inr (g[nat x := (g ! nat x)[nat y := v]])"
  by (simp add: write_cell_def)

lemma step_cell_result:
  assumes i: "0 \<le> i" "i < int (length g)" and j: "0 \<le> j" "j < int (length (g ! nat i))"
    and ni: "i < int (length ng)" and nj: "j < int (length (ng ! nat i))"
    and ret: "step_cell p g i j (ng, w) = Inr (ng', w')"
  shows "\<exists>v. ng' = ng[nat i := (ng ! nat i)[nat j := v]] \<and> cell_step (g ! nat i ! nat j) v
           \<and> calls w' = calls w + (if g ! nat i ! nat j = 2 then 0 else 1) \<and> draws w' = draws w"
proof -
  have rd: "read_cell g (Some i) (Some j) = Inr (Some (g ! nat i ! nat j))"
    using i j by (rule read_cell_in_range)
  have wr: "\<And>v. write_cell ng i j v = Inr (ng[nat i := (ng ! nat i)[nat j := v]])"
    using i(1) ni j(1) nj by (rule write_cell_in_range)
  show ?thesis
    using ret unfolding step_cell_def rd
    by (auto simp: wr Math_random_def cell_step_def split: sum.splits prod.splits if_splits)
qed

lemma step_cell_returns:
  assumes i: "0 \<le> i" "i < int (length g)" and j: "0 \<le> j" "j < int (length (g ! nat i))"
    and ni: "i < int (length ng)" and nj: "j < int (length (ng ! nat i))"
    and nb: "\<exists>res. getNeighbors p g i j (par_r p) = Inr res"
  shows "\<exists>st'. step_cell p g i j (ng, w) = Inr st'"
proof -
  have rd: "read_cell g (Some i) (Some j) = Inr (Some (g ! nat i ! nat j))"
    using i j by (rule read_cell_in_range)
  have wr: "\<And>v. write_cell ng i j v = Inr (ng[nat i := (ng ! nat i)[nat j := v]])"
    using i(1) ni j(1) nj by (rule write_cell_in_range)
  from nb obtain a b where "getNeighbors p g i j (par_r p) = Inr (a, b)" by auto
  then show ?thesis
    unfolding step_cell_def rd
    by (simp add: wr Math_random_def split: prod.splits)
qed

lemma step_row:
  assumes i: "0 \<le> i" "i < int (length g)" and n: "int (length (g ! nat i)) = n"
    and ni: "i < int (length ng0)" and nn: "int (length (ng0 ! nat i)) = n"
  shows "(\<forall>ng' w'. for_each [0..n - 1] (step_cell p g i) (ng0, w0) = Inr (ng', w') \<longrightarrow>
            (\<exists>row'. ng' = ng0[nat i := row'] \<and> list_all2 cell_step (g ! nat i) row'
               \<and> calls w' = calls w0 + length (filter (\<lambda>c. c \<noteq> 2) (g ! nat i))
               \<and> draws w' = draws w0))
       \<and> ((\<forall>j. \<exists>res. getNeighbors p g i j (par_r p) = Inr res) \<longrightarrow>
            (\<exists>st'. for_each [0..n - 1] (step_cell p g i) (ng0, w0) = Inr st'))"
proof -
  let ?row = "g ! nat i"
  let ?I = "\<lambda>j (st :: grid \<times> world). \<exists>row'. fst st = ng0[nat i := row'] \<and> int (length row') = n
              \<and> (\<forall>b < nat j. cell_step (?row ! b) (row' ! b))
              \<and> calls (snd st) = calls w0 + length (filter (\<lambda>c. c \<noteq> 2) (take (nat j) ?row))
              \<and> draws (snd st) = draws w0"
  have il: "nat i < length ng0" using i(1) ni by simp
  have init: "?I 0 (ng0, w0)"
    using nn by (intro exI[of _ "ng0 ! nat i"]) simp
  have pres: "?I (k + 1) s'"
    if k: "0 \<le> k" "k \<le> n - 1" and inv: "?I k s" and b: "step_cell p g i k s = Inr s'" for k s s'
  proof -
    obtain ng w where s: "s = (ng, w)" by (cases s)
    obtain ng' w' where s': "s' = (ng', w')" by (cases s')
    from inv obtain row' where r: "ng = ng0[nat i := row']" "int (length row') = n"
      "\<forall>b < nat k. cell_step (?row ! b) (row' ! b)"
      "calls w = calls w0 + length (filter (\<lambda>c. c \<noteq> 2) (take (nat k) ?row))"
      "draws w = draws w0"
      unfolding s by auto
    have ngi: "ng ! nat i = row'" using r(1) il by simp
    have kl: "k < int (length ?row)" using k n by simp
    have lng: "i < int (length ng)" using ni r(1) by simp
    have knl: "k < int (length (ng ! nat i))" using k r(2) ngi by simp
    from step_cell_result[OF i k(1) kl lng knl b[unfolded s s']]
    obtain v where v: "ng' = ng[nat i := (ng ! nat i)[nat k := v]]" "cell_step (?row ! nat k) v"
      "calls w' = calls w + (if ?row ! nat k = 2 then 0 else 1)" "draws w' = draws w"
      by auto
    have ng': "ng' = ng0[nat i := row'[nat k := v]]" using v(1) r(1) ngi by simp
    have len: "int (length (row'[nat k := v])) = n" using r(2) by simp
    have cells: "\<forall>b < nat (k + 1). cell_step (?row ! b) (row'[nat k := v] ! b)"
    proof (intro allI impI)
      fix b assume "b < nat (k + 1)"
      then have "b < nat k \<or> b = nat k" using k(1) by (auto simp: nat_add_distrib)
      moreover have "nat k < length row'" using k r(2) by simp
      ultimately show "cell_step (?row ! b) (row'[nat k := v] ! b)"
        using r(3) v(2) by auto
    qed
    have cnt: "calls w' = calls w0 + length (filter (\<lambda>c. c \<noteq> 2) (take (nat (k + 1)) ?row))"
      unfolding take_nat_Suc[OF k(1) kl] using v(3) r(4) by simp
    show ?thesis unfolding s' using ng' len cells cnt v(4) r(5) by auto
  qed
  have n0: "0 \<le> n - 1 + 1" using n by simp
  have part: "\<exists>row'. ng' = ng0[nat i := row'] \<and> list_all2 cell_step ?row row'
               \<and> calls w' = calls w0 + length (filter (\<lambda>c. c \<noteq> 2) ?row)
               \<and> draws w' = draws w0"
    if ret: "for_each [0..n - 1] (step_cell p g i) (ng0, w0) = Inr (ng', w')" for ng' w'
  proof -
    have "?I (n - 1 + 1) (ng', w')"
      by (rule for_each_range_partial[where I = ?I, OF init _ n0 ret]) (rule pres)
    then obtain row' where r: "ng' = ng0[nat i := row']" "int (length row') = n"
      "\<forall>b < nat n. cell_step (?row ! b) (row' ! b)"
      "calls w' = calls w0 + length (filter (\<lambda>c. c \<noteq> 2) (take (nat n) ?row))"
      "draws w' = draws w0"
      by auto
    have "list_all2 cell_step ?row row'"
      using r(2,3) n by (auto simp: list_all2_conv_all_nth)
    moreover have "take (nat n) ?row = ?row" using n by simp
    ultimately show ?thesis using r by auto
  qed
  have prog: "\<exists>st'. for_each [0..n - 1] (step_cell p g i) (ng0, w0) = Inr st'"
    if nb: "\<forall>j. \<exists>res. getNeighbors p g i j (par_r p) = Inr res"
  proof (rule for_each_range_progress[where I = ?I, OF init _ _ n0])
    fix k s s' assume "0 \<le> k" "k \<le> n - 1" "?I k s" "step_cell p g i k s = Inr s'"
    then show "?I (k + 1) s'" by (rule pres)
  next
    fix k s assume k: "0 \<le> k" "k \<le> n - 1" and inv: "?I k s"
    obtain ng w where s: "s = (ng, w)" by (cases s)
    from inv obtain row' where r: "ng = ng0[nat i := row']" "int (length row') = n"
      unfolding s by auto
    have ngi: "ng ! nat i = row'" using r(1) il by simp
    have kl: "k < int (length ?row)" using k n by simp
    have lng: "i < int (length ng)" using ni r(1) by simp
    have knl: "k < int (length (ng ! nat i))" using k r(2) ngi by simp
    show "\<exists>s'. step_cell p g i k s = Inr s'"
      unfolding s using step_cell_returns[OF i k(1) kl lng knl] nb by blast
  qed
  show ?thesis using part prog by blast
qed

lemma new_grid_result:
  assumes "new_grid m n = Inr ng"
  shows "int (length ng) = m \<and> list_all (\<lambda>row. int (length row) = n) ng"
  using assms
  by (auto simp: new_grid_def new_array_def list_all_iff split: if_splits sum.splits)

lemma new_grid_returns:
  assumes "0 \<le> m" "m < 4294967296" "m = 0 \<or> (0 \<le> n \<and> n < 4294967296)"
  shows "\<exists>ng. new_grid m n = Inr ng"
  using assms by (auto simp: new_grid_def new_array_def)

lemma step_result:
  assumes d: "grid_dims p g"
  shows "(\<forall>g' w'. step p g w = Inr (g', w') \<longrightarrow>
            grid_dims p g' \<and> list_all2 (list_all2 cell_step) g g'
            \<and> calls w' = calls w + count_cells (\<lambda>c. c \<noteq> 2) g \<and> draws w' = draws w)
       \<and> (par_M p < 4294967296 \<and> par_N p < 4294967296 \<and> par_r p \<le> par_M p \<longrightarrow>
            (\<exists>st'. step p g w = Inr st'))"
proof -
  let ?M = "par_M p" and ?N = "par_N p"
  let ?body = "\<lambda>i. for_each [0..?N - 1] (step_cell p g i)"
  let ?I = "\<lambda>k (st :: grid \<times> world). length (fst st) = length g
              \<and> (\<forall>a < length g. int (length (fst st ! a)) = ?N)
              \<and> (\<forall>a < nat k. list_all2 cell_step (g ! a) (fst st ! a))
              \<and> calls (snd st) = calls w + count_cells (\<lambda>c. c \<noteq> 2) (take (nat k) g)
              \<and> draws (snd st) = draws w"
  have len: "int (length g) = ?M" using d by (rule grid_dims_length)
  have m0: "0 \<le> ?M - 1 + 1" using len by simp
  have pres: "?I (k + 1) s'"
    if k: "0 \<le> k" "k \<le> ?M - 1" and inv: "?I k s" and b: "?body k s = Inr s'" for k s s'
  proof -
    obtain ng w1 where s: "s = (ng, w1)" by (cases s)
    obtain ng' w' where s': "s' = (ng', w')" by (cases s')
    have kl: "k < int (length g)" using k len by simp
    have kn: "nat k < length g" using k kl by simp
    have n: "int (length (g ! nat k)) = ?N" using d k by (simp add: grid_dims_row)
    have lng: "k < int (length ng)" using inv kl unfolding s by simp
    have nn: "int (length (ng ! nat k)) = ?N" using inv kn unfolding s by simp
    from step_row[OF k(1) kl n lng nn, of p w1] b[unfolded s s']
    obtain row' where r: "ng' = ng[nat k := row']" "list_all2 cell_step (g ! nat k) row'"
      "calls w' = calls w1 + length (filter (\<lambda>c. c \<noteq> 2) (g ! nat k))" "draws w' = draws w1"
      by blast
    have lrow: "int (length row') = ?N" using r(2) n by (simp add: list_all2_lengthD)
    have a1: "length ng' = length g" using inv r(1) unfolding s by simp
    have a2: "\<forall>a < length g. int (length (ng' ! a)) = ?N"
    proof (intro allI impI)
      fix a assume a: "a < length g"
      then have "a < length ng" using inv unfolding s by simp
      then have "ng' ! a = (if a = nat k then row' else ng ! a)"
        unfolding r(1) by (simp add: nth_list_update)
      then show "int (length (ng' ! a)) = ?N" using inv a lrow unfolding s by simp
    qed
    have a3: "\<forall>a < nat (k + 1). list_all2 cell_step (g ! a) (ng' ! a)"
    proof (intro allI impI)
      fix a assume "a < nat (k + 1)"
      then have "a < nat k \<or> a = nat k" using k(1) by (auto simp: nat_add_distrib)
      moreover have "nat k < length ng" using inv kn unfolding s by simp
      ultimately show "list_all2 cell_step (g ! a) (ng' ! a)"
        using inv r(1,2) unfolding s by (auto simp: nth_list_update)
    qed
    have a4: "calls w' = calls w + count_cells (\<lambda>c. c \<noteq> 2) (take (nat (k + 1)) g)"
      using inv r(3) unfolding s
      by (simp add: count_cells_def concat_take_nat_Suc[OF k(1) kl])
    have a5: "draws w' = draws w" using inv r(4) unfolding s by simp
    show ?thesis unfolding s' using a1 a2 a3 a4 a5 by simp
  qed
  have init: "?I 0 (ng, w)" if "new_grid ?M ?N = Inr ng" for ng
    using new_grid_result[OF that] len by (simp add: count_cells_def list_all_length)
  have part: "grid_dims p g' \<and> list_all2 (list_all2 cell_step) g g'
            \<and> calls w' = calls w + count_cells (\<lambda>c. c \<noteq> 2) g \<and> draws w' = draws w"
    if ret: "step p g w = Inr (g', w')" for g' w'
  proof -
    from ret obtain ng where ng: "new_grid ?M ?N = Inr ng"
      and loop: "for_each [0..?M - 1] ?body (ng, w) = Inr (g', w')"
      by (auto simp: step_def split: sum.splits)
    have "?I (?M - 1 + 1) (g', w')"
      by (rule for_each_range_partial[where I = ?I, OF init[OF ng] _ m0 loop]) (rule pres)
    then have r: "length g' = length g" "\<forall>a < length g. int (length (g' ! a)) = ?N"
      "\<forall>a < nat ?M. list_all2 cell_step (g ! a) (g' ! a)"
      "calls w' = calls w + count_cells (\<lambda>c. c \<noteq> 2) (take (nat ?M) g)" "draws w' = draws w"
      by simp_all
    have "nat ?M = length g" using len by simp
    then have "list_all2 (list_all2 cell_step) g g'" "take (nat ?M) g = g"
      using r(1,3) by (simp_all add: list_all2_conv_all_nth)
    moreover have "grid_dims p g'" using r(1,2) len by (simp add: grid_dims_def list_all_length)
    ultimately show ?thesis using r(4,5) by simp
  qed
  have prog: "\<exists>st'. step p g w = Inr st'"
    if lim: "par_M p < 4294967296 \<and> par_N p < 4294967296 \<and> par_r p \<le> par_M p"
  proof -
    have "?M = 0 \<or> (0 \<le> ?N \<and> ?N < 4294967296)"
    proof (cases "?M = 0")
      case False
      then have "0 < ?M" using len by simp
      then have "int (length (g ! nat 0)) = ?N" using d by (intro grid_dims_row) simp_all
      then show ?thesis using lim by auto
    qed simp
    then obtain ng where ng: "new_grid ?M ?N = Inr ng"
      using new_grid_returns[of ?M ?N] len lim by auto
    have "\<exists>st'. for_each [0..?M - 1] ?body (ng, w) = Inr st'"
    proof (rule for_each_range_progress[where I = ?I, OF init[OF ng] _ _ m0])
      fix k s s' assume "0 \<le> k" "k \<le> ?M - 1" "?I k s" "?body k s = Inr s'"
      then show "?I (k + 1) s'" by (rule pres)
    next
      fix k s assume k: "0 \<le> k" "k \<le> ?M - 1" and inv: "?I k s"
      obtain ng1 w1 where s: "s = (ng1, w1)" by (cases s)
      have kl: "k < int (length g)" using k len by simp
      have kn: "nat k < length g" using k kl by simp
      have n: "int (length (g ! nat k)) = ?N" using d k by (simp add: grid_dims_row)
      have lng: "k < int (length ng1)" using inv kl unfolding s by simp
      have nn: "int (length (ng1 ! nat k)) = ?N" using inv kn unfolding s by simp
      have "\<forall>j. \<exists>res. getNeighbors p g k j (par_r p) = Inr res"
        using getNeighbors_returns[of p g "par_r p" k] k len lim by auto
      with step_row[OF k(1) kl n lng nn, of p w1]
      show "\<exists>s'. ?body k s = Inr s'" unfolding s by blast
    qed
    then show ?thesis using ng by (simp add: step_def)
  qed
  show ?thesis using part prog by blast
qed

lemma list_all2_concat:
  "list_all2 (list_all2 R) xss yss \<Longrightarrow> list_all2 R (concat xss) (concat yss)"
  by (induction rule: list_all2_induct) (simp_all add: list_all2_appendI)

lemma filter_length_mono:
  "list_all2 (\<lambda>a b. P a \<longrightarrow> Q b) xs ys \<Longrightarrow> length (filter P xs) \<le> length (filter Q ys)"
  by (induction rule: list_all2_induct) auto

lemma filter_length_antimono:
  "list_all2 (\<lambda>a b. Q b \<longrightarrow> P a) xs ys \<Longrightarrow> length (filter Q ys) \<le> length (filter P xs)"
  by (induction rule: list_all2_induct) auto

lemma list_all2_right: "list_all2 (\<lambda>a b. Q b) xs ys \<Longrightarrow> list_all Q ys"
  by (induction rule: list_all2_induct) auto

lemma cells_valid_concat: "cells_valid g \<longleftrightarrow> (\<forall>c \<in> set (concat g). c = 0 \<or> c = 1 \<or> c = 2)"
  by (auto simp: cells_valid_def list_all_iff)

lemma cell_step_valid: "cell_step c c' \<Longrightarrow> c' = 0 \<or> c' = 1 \<or> c' = 2"
  by (auto simp: cell_step_def split: if_splits)

lemma cells_valid_after:
  assumes "list_all2 (list_all2 cell_step) g g'"
  shows "cells_valid g'"
proof -
  have "list_all2 cell_step (concat g) (concat g')" using assms by (rule list_all2_concat)
  then have "list_all2 (\<lambda>c c'. c' = 0 \<or> c' = 1 \<or> c' = 2) (concat g) (concat g')"
    by (rule list_all2_mono) (rule cell_step_valid)
  then have "list_all (\<lambda>c'. c' = 0 \<or> c' = 1 \<or> c' = 2) (concat g')" by (rule list_all2_right)
  then show ?thesis unfolding cells_valid_concat by (simp add: list_all_iff)
qed

lemma cell_step_counts:
  assumes st: "list_all2 (list_all2 cell_step) g g'" and v: "cells_valid g"
  shows "count_cells (\<lambda>c. c \<noteq> 0 \<and> c \<noteq> 1) g \<le> count_cells (\<lambda>c. c \<noteq> 0 \<and> c \<noteq> 1) g'"
    and "count_cells (\<lambda>c. c = 0) g' \<le> count_cells (\<lambda>c. c = 0) g"
proof -
  have c: "list_all2 cell_step (concat g) (concat g')" using st by (rule list_all2_concat)
  have "list_all2 (\<lambda>a b. (a \<noteq> 0 \<and> a \<noteq> 1 \<longrightarrow> b \<noteq> 0 \<and> b \<noteq> 1) \<and> (b = 0 \<longrightarrow> a = 0))
          (concat g) (concat g')"
  proof (rule list.rel_mono_strong[OF c])
    fix a b assume "a \<in> set (concat g)" "cell_step a b"
    then show "(a \<noteq> 0 \<and> a \<noteq> 1 \<longrightarrow> b \<noteq> 0 \<and> b \<noteq> 1) \<and> (b = 0 \<longrightarrow> a = 0)"
      using v unfolding cells_valid_concat by (auto simp: cell_step_def split: if_splits)
  qed
  then have m: "list_all2 (\<lambda>a b. a \<noteq> 0 \<and> a \<noteq> 1 \<longrightarrow> b \<noteq> 0 \<and> b \<noteq> 1) (concat g) (concat g')"
    and a: "list_all2 (\<lambda>a b. b = 0 \<longrightarrow> a = 0) (concat g) (concat g')"
    by (auto elim: list_all2_mono)
  show "count_cells (\<lambda>c. c \<noteq> 0 \<and> c \<noteq> 1) g \<le> count_cells (\<lambda>c. c \<noteq> 0 \<and> c \<noteq> 1) g'"
    unfolding count_cells_def using m by (rule filter_length_mono)
  show "count_cells (\<lambda>c. c = 0) g' \<le> count_cells (\<lambda>c. c = 0) g"
    unfolding count_cells_def using a by (rule filter_length_antimono)
qed

lemma step_counts:
  assumes d: "grid_dims p g" and v: "cells_valid g" and ret: "step p g w = Inr (g', w')"
  shows "grid_dims p g' \<and> cells_valid g'
       \<and> int (count_cells (\<lambda>c. c \<noteq> 0 \<and> c \<noteq> 1) g) \<le> int (count_cells (\<lambda>c. c \<noteq> 0 \<and> c \<noteq> 1) g')
       \<and> int (count_cells (\<lambda>c. c = 1) g) + int (count_cells (\<lambda>c. c \<noteq> 0 \<and> c \<noteq> 1) g)
           \<le> int (count_cells (\<lambda>c. c = 1) g') + int (count_cells (\<lambda>c. c \<noteq> 0 \<and> c \<noteq> 1) g')"
proof -
  from step_result[OF d, of w] ret
  have d': "grid_dims p g'" and st: "list_all2 (list_all2 cell_step) g g'" by blast+
  note c = cell_step_counts[OF st v]
  from count_cells_conservation[OF d] count_cells_conservation[OF d'] c
  show ?thesis using d' cells_valid_after[OF st] by linarith
qed

subsection \<open>Headless runs\<close>

lemma hist_mono_snoc:
  assumes "hist_mono hist"
    and "hist \<noteq> [] \<Longrightarrow> rec_r (last hist) \<le> rec_r x \<and> rec_i (last hist) + rec_r (last hist) \<le> rec_i x + rec_r x"
  shows "hist_mono (hist @ [x])"
  unfolding hist_mono_def
proof (intro allI impI)
  fix k assume k: "Suc k < length (hist @ [x])"
  show "rec_r ((hist @ [x]) ! k) \<le> rec_r ((hist @ [x]) ! Suc k)
        \<and> rec_i ((hist @ [x]) ! k) + rec_r ((hist @ [x]) ! k)
            \<le> rec_i ((hist @ [x]) ! Suc k) + rec_r ((hist @ [x]) ! Suc k)"
  proof (cases "Suc k < length hist")
    case True
    then show ?thesis using assms(1) by (simp add: hist_mono_def nth_append)
  next
    case False
    then have e: "Suc k = length hist" using k by simp
    then have ne: "hist \<noteq> []" by auto
    have "k = length hist - 1" using e by simp
    then have "hist ! k = last hist" using ne by (simp add: last_conv_nth)
    then show ?thesis using assms(2)[OF ne] e by (simp add: nth_append)
  qed
qed

lemma runOnceNoAnimate_result:
  assumes d: "grid_dims p g0"
  shows "(\<forall>hist w'. runOnceNoAnimate p (Some g0) w = Inr (hist, w') \<longrightarrow>
            length hist = nat (par_T p + 1) \<and> hist_ok p g0 hist
            \<and> (cells_valid g0 \<longrightarrow> hist_mono hist))
       \<and> (par_M p < 4294967296 \<and> par_N p < 4294967296 \<and> par_r p \<le> par_M p \<longrightarrow>
            (\<exists>res. runOnceNoAnimate p (Some g0) w = Inr res))"
proof (cases "0 \<le> par_T p + 1")
  case False
  then have "for_each [0..par_T p] (runOnceNoAnimate_body p) (g0, [], w) = Inr (g0, [], w)"
    by simp
  then show ?thesis using False by (simp add: runOnceNoAnimate_def hist_ok_def hist_mono_def)
next
  case t0: True
  let ?cR = "\<lambda>g. int (count_cells (\<lambda>c. c \<noteq> 0 \<and> c \<noteq> 1) g)"
  let ?c1 = "\<lambda>g. int (count_cells (\<lambda>c. c = 1) g)"
  let ?c0 = "\<lambda>g. int (count_cells (\<lambda>c. c = 0) g)"
  let ?I = "\<lambda>t (st :: grid \<times> StepRecord list \<times> world).
      (case st of (g, hist, w1) \<Rightarrow>
         grid_dims p g \<and> length hist = nat t \<and> hist_ok p g0 hist \<and> (hist = [] \<longrightarrow> g = g0)
         \<and> (cells_valid g0 \<longrightarrow> cells_valid g \<and> hist_mono hist
               \<and> (hist \<noteq> [] \<longrightarrow> rec_r (last hist) \<le> ?cR g
                     \<and> rec_i (last hist) + rec_r (last hist) \<le> ?c1 g + ?cR g)))"
  have init: "?I 0 (g0, [], w)" using d by (simp add: hist_ok_def hist_mono_def)
  have pres: "?I (t + 1) s'"
    if t: "0 \<le> t" "t \<le> par_T p" and inv: "?I t s" and b: "runOnceNoAnimate_body p t s = Inr s'"
    for t s s'
  proof -
    obtain g hist w1 where s: "s = (g, hist, w1)" by (cases s)
    obtain g' hist' w' where s': "s' = (g', hist', w')" by (cases s')
    from inv have dg: "grid_dims p g" and lh: "length hist = nat t" and ok: "hist_ok p g0 hist"
      and e: "hist = [] \<longrightarrow> g = g0"
      and val: "cells_valid g0 \<longrightarrow> cells_valid g \<and> hist_mono hist
               \<and> (hist \<noteq> [] \<longrightarrow> rec_r (last hist) \<le> ?cR g
                     \<and> rec_i (last hist) + rec_r (last hist) \<le> ?c1 g + ?cR g)"
      unfolding s by simp_all
    let ?rec = "\<lparr>rec_t = t, rec_s = ?c0 g, rec_i = ?c1 g, rec_r = ?cR g\<rparr>"
    note cs = countStates_eq[OF dg]
    have h': "hist' = hist @ [?rec]"
      using b unfolding s s'
      by (auto simp: runOnceNoAnimate_body_def cs Let_def split: if_splits sum.splits)
    have g': "(t < par_T p \<and> (\<exists>w2. step p g w1 = Inr (g', w2))) \<or> g' = g"
      using b unfolding s s'
      by (auto simp: runOnceNoAnimate_body_def cs Let_def split: if_splits sum.splits)
    have dg': "grid_dims p g'" using g' dg step_result[OF dg, of w1] by blast
    have l': "length hist' = nat (t + 1)" using h' lh t by (simp add: nat_add_distrib)
    have ok': "hist_ok p g0 hist'"
      unfolding hist_ok_def
    proof (intro conjI allI impI)
      fix k assume k: "k < length hist'"
      show "rec_t (hist' ! k) = int k"
      proof (cases "k < length hist")
        case True then show ?thesis using ok h' by (simp add: hist_ok_def nth_append)
      next
        case False
        then have "k = nat t" using k h' lh by simp
        then show ?thesis using h' lh t by (simp add: nth_append)
      qed
      show "rec_s (hist' ! k) + rec_i (hist' ! k) + rec_r (hist' ! k) = par_M p * par_N p"
      proof (cases "k < length hist")
        case True then show ?thesis using ok h' by (simp add: hist_ok_def nth_append)
      next
        case False
        then have "k = nat t" using k h' lh by simp
        then show ?thesis using h' lh count_cells_conservation[OF dg] by (simp add: nth_append)
      qed
    next
      assume "hist' \<noteq> []"
      show "countStates p g0 = Inr (rec_s (hist' ! 0), rec_i (hist' ! 0), rec_r (hist' ! 0))"
      proof (cases "hist = []")
        case True
        then show ?thesis using e h' cs by simp
      next
        case False
        then show ?thesis using ok h' by (simp add: hist_ok_def nth_append)
      qed
    qed
    have val': "cells_valid g' \<and> hist_mono hist'
               \<and> (hist' \<noteq> [] \<longrightarrow> rec_r (last hist') \<le> ?cR g'
                     \<and> rec_i (last hist') + rec_r (last hist') \<le> ?c1 g' + ?cR g')"
      if v0: "cells_valid g0"
    proof -
      from val v0 have vg: "cells_valid g" and hm: "hist_mono hist"
        and la: "hist \<noteq> [] \<longrightarrow> rec_r (last hist) \<le> ?cR g
                     \<and> rec_i (last hist) + rec_r (last hist) \<le> ?c1 g + ?cR g"
        by simp_all
      have m': "hist_mono hist'" unfolding h' using hm la by (intro hist_mono_snoc) simp_all
      have "cells_valid g' \<and> ?cR g \<le> ?cR g' \<and> ?c1 g + ?cR g \<le> ?c1 g' + ?cR g'"
        using g' vg step_counts[OF dg vg] by auto
      then show ?thesis using m' h' by simp
    qed
    show ?thesis unfolding s' using dg' l' ok' val' h' by simp
  qed
  have part: "length hist = nat (par_T p + 1) \<and> hist_ok p g0 hist
            \<and> (cells_valid g0 \<longrightarrow> hist_mono hist)"
    if ret: "runOnceNoAnimate p (Some g0) w = Inr (hist, w')" for hist w'
  proof -
    from ret obtain g' where loop:
      "for_each [0..par_T p] (runOnceNoAnimate_body p) (g0, [], w) = Inr (g', hist, w')"
      by (auto simp: runOnceNoAnimate_def split: sum.splits)
    have "?I (par_T p + 1) (g', hist, w')"
      by (rule for_each_range_partial[where I = ?I, OF init _ t0 loop]) (rule pres)
    then show ?thesis by simp
  qed
  have prog: "\<exists>res. runOnceNoAnimate p (Some g0) w = Inr res"
    if lim: "par_M p < 4294967296 \<and> par_N p < 4294967296 \<and> par_r p \<le> par_M p"
  proof -
    have "\<exists>st'. for_each [0..par_T p] (runOnceNoAnimate_body p) (g0, [], w) = Inr st'"
    proof (rule for_each_range_progress[where I = ?I, OF init _ _ t0])
      fix k s s' assume "0 \<le> k" "k \<le> par_T p" "?I k s" "runOnceNoAnimate_body p k s = Inr s'"
      then show "?I (k + 1) s'" by (rule pres)
    next
      fix k s assume "?I k s"
      obtain g hist w1 where s: "s = (g, hist, w1)" by (cases s)
      have dg: "grid_dims p g" using \<open>?I k s\<close> unfolding s by simp
      obtain g2 w2 where "step p g w1 = Inr (g2, w2)"
        using step_result[OF dg, of w1] lim by auto
      then show "\<exists>s'. runOnceNoAnimate_body p k s = Inr s'"
        unfolding s by (simp add: runOnceNoAnimate_body_def countStates_eq[OF dg] Let_def)
    qed
    then show ?thesis by (auto simp: runOnceNoAnimate_def split: sum.splits prod.splits)
  qed
  show ?thesis using part prog by blast
qed

subsection \<open>Conservation, monotonicity and the draws of a step\<close>

lemma ex_grid_dims: "grid_dims ex_params ex_grid"
  by (simp add: grid_dims_def ex_params_def ex_grid_def)

lemma ex_grid_valid: "cells_valid ex_grid"
  by (simp add: cells_valid_def ex_grid_def)

text \<open>
  Claim C1: conservation. For every run started from a grid of \<open>M\<close> rows and \<open>N\<close>
  columns, whatever the draws, every StepRecord that \<open>runOnceNoAnimate\<close> emits for
  \<open>t = 0..T\<close> has \<open>s + i + r = M * N\<close>: \<open>step\<close> maps such a grid to such a grid, and
  \<open>countStates\<close> puts every cell into exactly one of its three counts. The run
  returns its \<open>T + 1\<close> records when the radius is at most \<open>M\<close> (and \<open>M\<close>, \<open>N\<close> are
  lengths an array can have).
\<close>

theorem counts_conserved:
  assumes "grid_dims p g"
  shows "(\<forall>hist w'. runOnceNoAnimate p (Some g) w = Inr (hist, w') \<longrightarrow>
            list_all (\<lambda>rec. rec_s rec + rec_i rec + rec_r rec = par_M p * par_N p) hist)
       \<and> (\<forall>g' w'. step p g w = Inr (g', w') \<longrightarrow> grid_dims p g')
       \<and> (\<exists>s i r. countStates p g = Inr (s, i, r) \<and> s + i + r = par_M p * par_N p)
       \<and> (par_M p < 4294967296 \<and> par_N p < 4294967296 \<and> par_r p \<le> par_M p \<longrightarrow>
            (\<exists>hist w'. runOnceNoAnimate p (Some g) w = Inr (hist, w')
               \<and> length hist = nat (par_T p + 1)))"
proof -
  note run = runOnceNoAnimate_result[OF assms, of w]
  have a: "list_all (\<lambda>rec. rec_s rec + rec_i rec + rec_r rec = par_M p * par_N p) hist"
    if "runOnceNoAnimate p (Some g) w = Inr (hist, w')" for hist w'
  proof -
    from run that have "hist_ok p g hist" by blast
    then show ?thesis by (simp add: hist_ok_def list_all_length)
  qed
  have b: "grid_dims p g'" if "step p g w = Inr (g', w')" for g' w'
    using step_result[OF assms, of w] that by blast
  have c: "\<exists>s i r. countStates p g = Inr (s, i, r) \<and> s + i + r = par_M p * par_N p"
    using countStates_eq[OF assms] count_cells_conservation[OF assms] by simp
  have d: "\<exists>hist w'. runOnceNoAnimate p (Some g) w = Inr (hist, w')
               \<and> length hist = nat (par_T p + 1)"
    if "par_M p < 4294967296 \<and> par_N p < 4294967296 \<and> par_r p \<le> par_M p"
  proof -
    from run that obtain hist w' where r: "runOnceNoAnimate p (Some g) w = Inr (hist, w')"
      by (metis surj_pair)
    with run show ?thesis by blast
  qed
  show ?thesis using a b c d by blast
qed

theorem counts_conserved_witness:
  "grid_dims ex_params ex_grid
   \<and> (\<exists>hist w'. runOnceNoAnimate ex_params (Some ex_grid) ex_world = Inr (hist, w')
         \<and> length hist = 3 \<and> list_all (\<lambda>rec. rec_s rec + rec_i rec + rec_r rec = 6) hist)
   \<and> countStates ex_params ex_grid = Inr (4, 1, 1)"
proof -
  have d: "grid_dims ex_params ex_grid" by (rule ex_grid_dims)
  have l: "par_M ex_params < 4294967296 \<and> par_N ex_params < 4294967296
             \<and> par_r ex_params \<le> par_M ex_params"
    by (simp add: ex_params_def)
  have v: "par_M ex_params * par_N ex_params = 6" "nat (par_T ex_params + 1) = 3"
    by (simp_all add: ex_params_def)
  have c: "countStates ex_params ex_grid = Inr (4, 1, 1)" by code_simp
  from counts_conserved[OF d, of ex_world] l
  show ?thesis using d c unfolding v by blast
qed

lemma count_not_recovered:
  assumes "cells_valid g"
  shows "count_cells (\<lambda>c. c \<noteq> 2) g = count_cells (\<lambda>c. c = 0) g + count_cells (\<lambda>c. c = 1) g"
proof -
  have "length (filter (\<lambda>c. c \<noteq> 2) xs) =
          length (filter (\<lambda>c. c = 0) xs) + length (filter (\<lambda>c. c = 1) xs)"
    if "\<forall>c \<in> set xs. c = 0 \<or> c = 1 \<or> c = (2::int)" for xs
    using that by (induction xs) auto
  then show ?thesis using assms unfolding count_cells_def cells_valid_concat by blast
qed

text \<open>
  Claim C6: monotonicity. For every grid of \<open>M\<close> rows and \<open>N\<close> columns with cells
  in \<open>{0, 1, 2}\<close> and every outcome of the draws, \<open>step\<close> takes no cell from
  recovered to another state nor from infected to susceptible (\<open>cell_step\<close>), so the
  count of recovered, and the count of infected and recovered together, of \<open>step(g)\<close>
  are at least those of \<open>g\<close>; both hold from each record of a run to the next.
\<close>

theorem step_monotone:
  assumes "grid_dims p g" and "cells_valid g"
  shows "(\<forall>g' w'. step p g w = Inr (g', w') \<longrightarrow>
            list_all2 (list_all2 cell_step) g g'
            \<and> (\<exists>s i r s' i' r'. countStates p g = Inr (s, i, r)
                  \<and> countStates p g' = Inr (s', i', r') \<and> r \<le> r' \<and> i + r \<le> i' + r'))
       \<and> (\<forall>hist w'. runOnceNoAnimate p (Some g) w = Inr (hist, w') \<longrightarrow> hist_mono hist)
       \<and> (par_M p < 4294967296 \<and> par_N p < 4294967296 \<and> par_r p \<le> par_M p \<longrightarrow>
            (\<exists>g' w'. step p g w = Inr (g', w')))"
proof -
  have a: "list_all2 (list_all2 cell_step) g g'
            \<and> (\<exists>s i r s' i' r'. countStates p g = Inr (s, i, r)
                  \<and> countStates p g' = Inr (s', i', r') \<and> r \<le> r' \<and> i + r \<le> i' + r')"
    if ret: "step p g w = Inr (g', w')" for g' w'
  proof -
    from step_result[OF assms(1), of w] ret
    have st: "list_all2 (list_all2 cell_step) g g'" by blast
    from step_counts[OF assms ret] have d': "grid_dims p g'"
      and m: "int (count_cells (\<lambda>c. c \<noteq> 0 \<and> c \<noteq> 1) g) \<le> int (count_cells (\<lambda>c. c \<noteq> 0 \<and> c \<noteq> 1) g')"
        "int (count_cells (\<lambda>c. c = 1) g) + int (count_cells (\<lambda>c. c \<noteq> 0 \<and> c \<noteq> 1) g)
           \<le> int (count_cells (\<lambda>c. c = 1) g') + int (count_cells (\<lambda>c. c \<noteq> 0 \<and> c \<noteq> 1) g')"
      by simp_all
    show ?thesis using st countStates_eq[OF assms(1)] countStates_eq[OF d'] m by blast
  qed
  have b: "hist_mono hist" if "runOnceNoAnimate p (Some g) w = Inr (hist, w')" for hist w'
    using runOnceNoAnimate_result[OF assms(1), of w] that assms(2) by blast
  have c: "\<exists>g' w'. step p g w = Inr (g', w')"
    if "par_M p < 4294967296 \<and> par_N p < 4294967296 \<and> par_r p \<le> par_M p"
    using step_result[OF assms(1), of w] that by (metis surj_pair)
  show ?thesis using a b c by blast
qed

theorem step_monotone_witness:
  "grid_dims ex_params ex_grid \<and> cells_valid ex_grid
   \<and> map_sum id fst (step ex_params ex_grid ex_world) = Inr [[1, 1, 1], [0, 1, 2]]
   \<and> countStates ex_params ex_grid = Inr (4, 1, 1)
   \<and> countStates ex_params [[1, 1, 1], [0, 1, 2]] = Inr (1, 4, 1)
   \<and> list_all2 (list_all2 cell_step) ex_grid [[1, 1, 1], [0, 1, 2]]"
proof -
  have d: "grid_dims ex_params ex_grid" by (simp add: grid_dims_def ex_params_def ex_grid_def)
  have v: "cells_valid ex_grid" by (simp add: cells_valid_def ex_grid_def)
  have s: "map_sum id fst (step ex_params ex_grid ex_world) = Inr [[1, 1, 1], [0, 1, 2]]"
    by code_simp
  then obtain w' where s': "step ex_params ex_grid ex_world = Inr ([[1, 1, 1], [0, 1, 2]], w')"
    by (cases "step ex_params ex_grid ex_world") auto
  have c: "countStates ex_params ex_grid = Inr (4, 1, 1)"
    "countStates ex_params [[1, 1, 1], [0, 1, 2]] = Inr (1, 4, 1)"
    by code_simp+
  from step_monotone[OF d v, of ex_world] s'
  have "list_all2 (list_all2 cell_step) ex_grid [[1, 1, 1], [0, 1, 2]]" by blast
  then show ?thesis using d v s c by blast
qed

text \<open>
  Claim C9, as stated, on a grid of one recovered cell: \<open>step\<close> copies the cell and
  returns with no call of \<open>Math.random()\<close> made, where the claim counts
  \<open>M * N = 1\<close> draw.
\<close>

theorem step_draws_skip_recovered:
  "map_sum id (\<lambda>(g', w'). (g', calls w'))
     (step \<lparr>par_M = 1, par_N = 1, par_I0 = 0, par_T = 1, par_r = 1, par_beta = 4/5, par_alpha = 1/10\<rparr>
        [[2]] \<lparr>draws = (\<lambda>k. 0), calls = 0\<rparr>) = Inr ([[2]], 0)"
  by code_simp

text \<open>
  Claim C9, amended: in one application of \<open>step\<close> every susceptible and every
  infected cell consumes exactly one draw and a recovered cell none, so a step over a
  grid of \<open>M\<close> rows and \<open>N\<close> columns consumes \<open>s + i = M * N - r\<close> draws, the
  counts being those of the grid it starts from.
\<close>

theorem step_draw_count:
  assumes "grid_dims p g" and "cells_valid g" and "step p g w = Inr (g', w')"
  shows "calls w' = calls w + count_cells (\<lambda>c. c \<noteq> 2) g
       \<and> draws w' = draws w
       \<and> (\<exists>s i r. countStates p g = Inr (s, i, r) \<and> int (calls w') = int (calls w) + s + i
             \<and> s + i = par_M p * par_N p - r)"
proof -
  from step_result[OF assms(1), of w] assms(3)
  have c: "calls w' = calls w + count_cells (\<lambda>c. c \<noteq> 2) g" and dr: "draws w' = draws w"
    by blast+
  have "int (calls w') = int (calls w) + int (count_cells (\<lambda>c. c = 0) g) + int (count_cells (\<lambda>c. c = 1) g)"
    using c count_not_recovered[OF assms(2)] by simp
  moreover have "int (count_cells (\<lambda>c. c = 0) g) + int (count_cells (\<lambda>c. c = 1) g)
      = par_M p * par_N p - int (count_cells (\<lambda>c. c \<noteq> 0 \<and> c \<noteq> 1) g)"
    using count_cells_conservation[OF assms(1)] by simp
  ultimately show ?thesis using c dr countStates_eq[OF assms(1)] by simp
qed

theorem step_draw_count_witness:
  "grid_dims ex_params ex_grid \<and> cells_valid ex_grid
   \<and> map_sum id (\<lambda>(g', w'). (g', calls w')) (step ex_params ex_grid ex_world)
       = Inr ([[1, 1, 1], [0, 1, 2]], 5)
   \<and> countStates ex_params ex_grid = Inr (4, 1, 1)
   \<and> calls ex_world + count_cells (\<lambda>c. c \<noteq> 2) ex_grid = 5"
proof -
  have d: "grid_dims ex_params ex_grid" by (simp add: grid_dims_def ex_params_def ex_grid_def)
  have v: "cells_valid ex_grid" by (simp add: cells_valid_def ex_grid_def)
  have s: "map_sum id (\<lambda>(g', w'). (g', calls w')) (step ex_params ex_grid ex_world)
       = Inr ([[1, 1, 1], [0, 1, 2]], 5)"
    by code_simp
  then obtain w' where s': "step ex_params ex_grid ex_world = Inr ([[1, 1, 1], [0, 1, 2]], w')"
    and w': "calls w' = 5"
    by (cases "step ex_params ex_grid ex_world") auto
  have c: "countStates ex_params ex_grid = Inr (4, 1, 1)" by code_simp
  from step_draw_count[OF d v s'] w'
  have "calls ex_world + count_cells (\<lambda>c. c \<noteq> 2) ex_grid = 5" by simp
  then show ?thesis using d v s c by blast
qed

subsection \<open>The seeded initial grid\<close>

lemma floor_unit_scale:
  assumes "0 \<le> u" "u < 1" "1 \<le> m"
  shows "0 \<le> \<lfloor>u * real_of_int m\<rfloor> \<and> \<lfloor>u * real_of_int m\<rfloor> < m"
proof -
  have "0 \<le> u * real_of_int m" using assms by simp
  moreover have "u * real_of_int m < real_of_int m" using assms by simp
  ultimately show ?thesis by (simp add: floor_less_iff)
qed

lemma coord_in_range:
  assumes "unit_draws rng" "1 \<le> m" "1 \<le> n"
  shows "coord rng m n j \<in> {0..<m} \<times> {0..<n}"
  using floor_unit_scale[of "rng (2 * j)" m] floor_unit_scale[of "rng (2 * j + 1)" n] assms
  by (simp add: coord_def unit_draws_def)

lemma filter_update_count:
  "i < length xs \<Longrightarrow>
     length (filter P (xs[i := v])) + (if P (xs ! i) then 1 else 0)
       = length (filter P xs) + (if P v then 1 else 0)"
proof (induction xs arbitrary: i)
  case Nil
  then show ?case by simp
next
  case (Cons a xs)
  show ?case
  proof (cases i)
    case 0
    then show ?thesis by simp
  next
    case (Suc i')
    then have "i' < length xs" using Cons.prems by simp
    from Cons.IH[OF this] show ?thesis using Suc by (auto split: if_splits)
  qed
qed

lemma concat_update_count:
  "x < length g \<Longrightarrow>
     length (filter P (concat (g[x := r]))) + length (filter P (g ! x))
       = length (filter P (concat g)) + length (filter P r)"
proof (induction g arbitrary: x)
  case Nil
  then show ?case by simp
next
  case (Cons a g)
  show ?case
  proof (cases x)
    case 0
    then show ?thesis by simp
  next
    case (Suc x')
    then have "x' < length g" using Cons.prems by simp
    from Cons.IH[OF this] show ?thesis using Suc by simp
  qed
qed

lemma count_cells_write:
  assumes "x < length g" "y < length (g ! x)"
  shows "count_cells P (g[x := (g ! x)[y := v]]) + (if P (g ! x ! y) then 1 else 0)
           = count_cells P g + (if P v then 1 else 0)"
  using concat_update_count[OF assms(1), of P "(g ! x)[y := v]"]
    filter_update_count[OF assms(2), of P v]
  unfolding count_cells_def by linarith

lemma marks_write:
  assumes mk: "marks g used" and x: "0 \<le> x" "x < int (length g)"
    and y: "0 \<le> y" "y < int (length (g ! nat x))"
  shows "marks (g[nat x := (g ! nat x)[nat y := 1]]) (insert (x, y) used)"
  unfolding marks_def
proof (intro allI impI)
  fix a b
  let ?g' = "g[nat x := (g ! nat x)[nat y := 1]]"
  assume ab: "0 \<le> a \<and> a < int (length ?g') \<and> 0 \<le> b \<and> b < int (length (?g' ! nat a))"
  have xl: "nat x < length g" using x by simp
  show "?g' ! nat a ! nat b = (if (a, b) \<in> insert (x, y) used then 1 else 0)"
  proof (cases "a = x")
    case True
    then have row: "?g' ! nat a = (g ! nat x)[nat y := 1]" using xl by simp
    show ?thesis
    proof (cases "b = y")
      case True
      then show ?thesis using row \<open>a = x\<close> y by simp
    next
      case False
      then have "nat b \<noteq> nat y" using ab y by (auto simp: nat_eq_iff)
      then have "?g' ! nat a ! nat b = g ! nat x ! nat b" using row by simp
      moreover have "g ! nat x ! nat b = (if (x, b) \<in> used then 1 else 0)"
        using mk ab x row unfolding marks_def by simp
      ultimately show ?thesis using False \<open>a = x\<close> by simp
    qed
  next
    case False
    then have ne: "nat a \<noteq> nat x" using ab x by (auto simp: nat_eq_iff)
    then have "?g' ! nat a = g ! nat a" by simp
    moreover have "g ! nat a ! nat b = (if (a, b) \<in> used then 1 else 0)"
      using mk ab ne unfolding marks_def by simp
    ultimately show ?thesis using False by simp
  qed
qed

lemma makeInitialGrid_loop_round:
  "makeInitialGrid_loop rng m n i0 (2 * j) g used placed =
     (if placed < i0 then
        (if coord rng m n j \<notin> used then
           (case write_cell g (fst (coord rng m n j)) (snd (coord rng m n j)) 1 of
              Inl e \<Rightarrow> Some (Inl e)
            | Inr g' \<Rightarrow>
                makeInitialGrid_loop rng m n i0 (2 * Suc j) g'
                  (insert (coord rng m n j) used) (placed + 1))
         else makeInitialGrid_loop rng m n i0 (2 * Suc j) g used placed)
      else Some (Inr g))"
proof -
  have e: "2 * Suc j = 2 * j + 2" by simp
  show ?thesis
    unfolding e coord_def fst_conv snd_conv
    by (subst makeInitialGrid_loop.simps) (simp only: Let_def)
qed

lemma loop_inv_used_bound:
  assumes u: "unit_draws rng" and m: "1 \<le> m" and n: "1 \<le> n"
    and inv: "loop_inv rng m n j g used placed"
  shows "used \<subseteq> {0..<m} \<times> {0..<n}" and "finite used" and "placed \<le> m * n"
proof -
  have "coord rng m n ` {..<j} \<subseteq> {0..<m} \<times> {0..<n}"
    using coord_in_range[OF u m n] by blast
  then show sub: "used \<subseteq> {0..<m} \<times> {0..<n}"
    using inv by (simp add: loop_inv_def)
  have "used = coord rng m n ` {..<j}" using inv unfolding loop_inv_def by blast
  then show "finite used" by simp
  have "card used \<le> card ({0..<m} \<times> {0..<n})" using sub by (intro card_mono) simp_all
  also have "\<dots> = nat m * nat n" by (simp add: card_cartesian_product)
  finally have "int (card used) \<le> int (nat m * nat n)" by (rule iffD2[OF of_nat_le_iff])
  moreover have "int (nat m * nat n) = m * n" using m n by simp
  ultimately have "int (card used) \<le> m * n" by simp
  moreover have "placed = int (card used)" using inv unfolding loop_inv_def by blast
  ultimately show "placed \<le> m * n" by simp
qed

lemma loop_inv_round_new:
  assumes u: "unit_draws rng" and m: "1 \<le> m" and n: "1 \<le> n"
    and inv: "loop_inv rng m n j g used placed"
    and new: "coord rng m n j \<notin> used"
  shows "\<exists>g'. write_cell g (fst (coord rng m n j)) (snd (coord rng m n j)) 1 = Inr g'
           \<and> loop_inv rng m n (Suc j) g' (insert (coord rng m n j) used) (placed + 1)"
proof -
  obtain x y where c: "coord rng m n j = (x, y)" by (cases "coord rng m n j")
  have xy: "0 \<le> x" "x < m" "0 \<le> y" "y < n"
    using coord_in_range[OF u m n, of j] unfolding c by simp_all
  have len: "int (length g) = m" and rows: "list_all (\<lambda>row. int (length row) = n) g"
    and mk: "marks g used" and fin: "finite used"
    using inv unfolding loop_inv_def by blast+
  have xl: "nat x < length g" using xy len by simp
  then have rl: "int (length (g ! nat x)) = n" using rows by (simp add: list_all_length)
  have yl: "nat y < length (g ! nat x)" using xy rl by simp
  let ?g' = "g[nat x := (g ! nat x)[nat y := 1]]"
  have w: "write_cell g x y 1 = Inr ?g'"
    using xy len rl by (simp add: write_cell_in_range)
  have old: "g ! nat x ! nat y = 0"
    using mk xy len rl new unfolding marks_def c by simp
  have c1: "count_cells (\<lambda>c. c = 1) ?g' = Suc (count_cells (\<lambda>c. c = 1) g)"
    using count_cells_write[OF xl yl, of "\<lambda>c. c = 1" 1] old by simp
  have c2: "count_cells (\<lambda>c. c \<noteq> 0 \<and> c \<noteq> 1) ?g' = count_cells (\<lambda>c. c \<noteq> 0 \<and> c \<noteq> 1) g"
    using count_cells_write[OF xl yl, of "\<lambda>c. c \<noteq> 0 \<and> c \<noteq> 1" 1] old by simp
  have rows': "list_all (\<lambda>row. int (length row) = n) ?g'"
    unfolding list_all_length
  proof (intro allI impI)
    fix a assume "a < length ?g'"
    then have a: "a < length g" by simp
    then have "?g' ! a = (if a = nat x then (g ! nat x)[nat y := 1] else g ! a)"
      by (simp add: nth_list_update)
    then show "int (length (?g' ! a)) = n" using rows rl a by (simp add: list_all_length)
  qed
  have mk': "marks ?g' (insert (x, y) used)"
    using mk xy len rl by (intro marks_write) simp_all
  have "used = coord rng m n ` {..<j}" using inv unfolding loop_inv_def by blast
  then have us: "insert (x, y) used = coord rng m n ` {..<Suc j}"
    using c by (auto simp: lessThan_Suc)
  have cd: "card (insert (x, y) used) = Suc (card used)" using new fin c by simp
  have pl: "placed = int (card used)" and co: "count_cells (\<lambda>c. c = 1) g = card used"
    "count_cells (\<lambda>c. c \<noteq> 0 \<and> c \<noteq> 1) g = 0"
    using inv unfolding loop_inv_def by blast+
  have "loop_inv rng m n (Suc j) ?g' (insert (x, y) used) (placed + 1)"
    unfolding loop_inv_def
    by (intro conjI) (use us cd len rows' mk' c1 c2 pl co in simp_all)
  then show ?thesis using w c by simp
qed

lemma loop_inv_round_old:
  assumes inv: "loop_inv rng m n j g used placed" and old: "coord rng m n j \<in> used"
  shows "loop_inv rng m n (Suc j) g used placed"
proof -
  have "used = coord rng m n ` {..<j}" using inv unfolding loop_inv_def by blast
  then have "used = coord rng m n ` {..<Suc j}"
    using old by (auto simp: lessThan_Suc)
  then show ?thesis using inv unfolding loop_inv_def by blast
qed

lemma makeInitialGrid_loop_total:
  assumes u: "unit_draws rng" and m: "1 \<le> m" and n: "1 \<le> n"
    and J: "i0 \<le> int (card (coord rng m n ` {..<J}))"
  shows "j \<le> J \<Longrightarrow> loop_inv rng m n j g used placed \<Longrightarrow> placed \<le> i0 \<Longrightarrow>
         \<exists>g' used' j'. makeInitialGrid_loop rng m n i0 (2 * j) g used placed = Some (Inr g')
            \<and> loop_inv rng m n j' g' used' i0"
proof (induction "J - j" arbitrary: j g used placed)
  case 0
  then have "j = J" by simp
  then have "i0 \<le> placed" using J "0.prems"(2) by (simp add: loop_inv_def)
  then have "placed = i0" using "0.prems"(3) by simp
  then show ?case using "0.prems"(2) by (subst makeInitialGrid_loop_round) auto
next
  case (Suc d)
  show ?case
  proof (cases "placed < i0")
    case False
    then have "placed = i0" using Suc.prems(3) by simp
    then show ?thesis using Suc.prems(2) by (subst makeInitialGrid_loop_round) auto
  next
    case True
    have d: "d = J - Suc j" and le: "Suc j \<le> J" using Suc.hyps(2) by simp_all
    show ?thesis
    proof (cases "coord rng m n j \<in> used")
      case True
      from Suc.hyps(1)[OF d le loop_inv_round_old[OF Suc.prems(2) True] Suc.prems(3)]
      show ?thesis using True \<open>placed < i0\<close> by (subst makeInitialGrid_loop_round) simp
    next
      case False
      from loop_inv_round_new[OF u m n Suc.prems(2) False]
      obtain g1 where w: "write_cell g (fst (coord rng m n j)) (snd (coord rng m n j)) 1 = Inr g1"
        and i1: "loop_inv rng m n (Suc j) g1 (insert (coord rng m n j) used) (placed + 1)"
        by blast
      have "placed + 1 \<le> i0" using True by simp
      from Suc.hyps(1)[OF d le i1 this]
      show ?thesis using False \<open>placed < i0\<close> w by (subst makeInitialGrid_loop_round) simp
    qed
  qed
qed

lemma makeInitialGrid_loop_partial:
  assumes "makeInitialGrid_loop rng m n i0 k g used placed = Some y"
    and "unit_draws rng" "1 \<le> m" "1 \<le> n" "k = 2 * j" "loop_inv rng m n j g used placed"
  shows "\<exists>g' used' j' placed'. y = Inr g' \<and> loop_inv rng m n j' g' used' placed' \<and> \<not> placed' < i0"
  using assms(2-)
proof (induction arbitrary: j rule: makeInitialGrid_loop.raw_induct[OF _ assms(1)])
  case (1 loop rng m n i0 k g used placed y)
  have u: "unit_draws rng" and m: "1 \<le> m" and n: "1 \<le> n" and k: "k = 2 * j"
    and inv: "loop_inv rng m n j g used placed"
    using "1.prems" by blast+
  have e: "2 * Suc j = 2 * j + 2" by simp
  have body: "(if placed < i0 then
        (if coord rng m n j \<notin> used then
           (case write_cell g (fst (coord rng m n j)) (snd (coord rng m n j)) 1 of
              Inl e \<Rightarrow> Some (Inl e)
            | Inr g' \<Rightarrow> loop rng m n i0 (2 * Suc j) g' (insert (coord rng m n j) used) (placed + 1))
         else loop rng m n i0 (2 * Suc j) g used placed)
      else Some (Inr g)) = Some y"
    using "1.hyps" unfolding k e coord_def fst_conv snd_conv Let_def .
  show ?case
  proof (cases "placed < i0")
    case False
    then have "y = Inr g" using body by simp
    then show ?thesis using inv False by blast
  next
    case True
    show ?thesis
    proof (cases "coord rng m n j \<in> used")
      case old: True
      then have "loop rng m n i0 (2 * Suc j) g used placed = Some y" using body True by simp
      from "1.IH"[OF this u m n refl loop_inv_round_old[OF inv old]] show ?thesis .
    next
      case new: False
      from loop_inv_round_new[OF u m n inv new]
      obtain g1 where w: "write_cell g (fst (coord rng m n j)) (snd (coord rng m n j)) 1 = Inr g1"
        and i1: "loop_inv rng m n (Suc j) g1 (insert (coord rng m n j) used) (placed + 1)"
        by blast
      have "loop rng m n i0 (2 * Suc j) g1 (insert (coord rng m n j) used) (placed + 1) = Some y"
        using body True new w by simp
      from "1.IH"[OF this u m n refl i1] show ?thesis .
    qed
  qed
qed

lemma count_cells_none:
  "(\<And>c. c \<in> set (concat g) \<Longrightarrow> \<not> P c) \<Longrightarrow> count_cells P g = 0"
  by (simp add: count_cells_def filter_empty_conv)

lemma fresh_grid:
  assumes m: "1 \<le> m" "m < 4294967296" and n: "1 \<le> n" "n < 4294967296"
  shows "new_grid m n = Inr (replicate (nat m) (replicate (nat n) 0))"
    and "loop_inv rng m n 0 (replicate (nat m) (replicate (nat n) 0)) {} 0"
proof -
  let ?g = "replicate (nat m) (replicate (nat n) (0::int))"
  show "new_grid m n = Inr ?g"
    using m n by (simp add: new_grid_def new_array_def map_replicate_const)
  have cells: "c = 0" if "c \<in> set (concat ?g)" for c using that by auto
  have mk: "marks ?g {}"
    unfolding marks_def
  proof (intro allI impI)
    fix x y
    assume a: "0 \<le> x \<and> x < int (length ?g) \<and> 0 \<le> y \<and> y < int (length (?g ! nat x))"
    then have "nat x < nat m" using m by auto
    then have "?g ! nat x = replicate (nat n) 0" by simp
    moreover from this a have "nat y < nat n" using n by auto
    ultimately show "?g ! nat x ! nat y = (if (x, y) \<in> {} then 1 else 0)" by simp
  qed
  have c1: "count_cells (\<lambda>c. c = 1) ?g = 0" by (rule count_cells_none) (use cells in auto)
  have c2: "count_cells (\<lambda>c. c \<noteq> 0 \<and> c \<noteq> 1) ?g = 0"
    by (rule count_cells_none) (use cells in auto)
  show "loop_inv rng m n 0 ?g {} 0"
    unfolding loop_inv_def using m n mk c1 c2 by (simp add: list_all_length)
qed

lemma loop_inv_result:
  assumes u: "unit_draws rng" and m: "1 \<le> par_M p" and n: "1 \<le> par_N p"
    and inv: "loop_inv rng (par_M p) (par_N p) j g used (par_I0 p)"
  shows "grid_dims p g \<and> marks g used \<and> int (card used) = par_I0 p
       \<and> used \<subseteq> {0..<par_M p} \<times> {0..<par_N p}
       \<and> countStates p g = Inr (par_M p * par_N p - par_I0 p, par_I0 p, 0)"
proof -
  have d: "grid_dims p g" using inv unfolding loop_inv_def grid_dims_def by blast
  have mk: "marks g used" and cd: "par_I0 p = int (card used)"
    and c1: "count_cells (\<lambda>c. c = 1) g = card used"
    and c2: "count_cells (\<lambda>c. c \<noteq> 0 \<and> c \<noteq> 1) g = 0"
    using inv unfolding loop_inv_def by blast+
  have "int (count_cells (\<lambda>c. c = 0) g) = par_M p * par_N p - par_I0 p"
    using count_cells_conservation[OF d] c1 c2 cd by simp
  then have "countStates p g = Inr (par_M p * par_N p - par_I0 p, par_I0 p, 0)"
    using countStates_eq[OF d] c1 c2 cd by simp
  then show ?thesis using d mk cd loop_inv_used_bound(1)[OF u m n inv] by simp
qed

lemma makeInitialGrid_total:
  assumes u: "unit_draws (seedrandom initSeed)"
    and m: "1 \<le> par_M p" "par_M p < 4294967296" and n: "1 \<le> par_N p" "par_N p < 4294967296"
    and i0: "0 \<le> par_I0 p"
    and J: "par_I0 p \<le> int (card (coord (seedrandom initSeed) (par_M p) (par_N p) ` {..<J}))"
  shows "\<exists>g used. makeInitialGrid seedrandom p = Some (Inr g) \<and> grid_dims p g \<and> marks g used
           \<and> int (card used) = par_I0 p \<and> used \<subseteq> {0..<par_M p} \<times> {0..<par_N p}
           \<and> countStates p g = Inr (par_M p * par_N p - par_I0 p, par_I0 p, 0)"
proof -
  let ?g0 = "replicate (nat (par_M p)) (replicate (nat (par_N p)) (0::int))"
  note fresh = fresh_grid(1)[OF m n] fresh_grid(2)[OF m n, of "seedrandom initSeed"]
  from makeInitialGrid_loop_total[OF u m(1) n(1) J, of 0 ?g0 "{}" 0] fresh(2) i0
  obtain g used j where r: "makeInitialGrid_loop (seedrandom initSeed) (par_M p) (par_N p) (par_I0 p)
      (2 * 0) ?g0 {} 0 = Some (Inr g)"
    and inv: "loop_inv (seedrandom initSeed) (par_M p) (par_N p) j g used (par_I0 p)"
    by auto
  have "makeInitialGrid seedrandom p = Some (Inr g)"
    using r fresh(1) by (simp add: makeInitialGrid_def)
  then show ?thesis using loop_inv_result[OF u m(1) n(1) inv] by blast
qed

lemma makeInitialGrid_returns_grid:
  assumes u: "unit_draws (seedrandom initSeed)"
    and m: "1 \<le> par_M p" "par_M p < 4294967296" and n: "1 \<le> par_N p" "par_N p < 4294967296"
    and ret: "makeInitialGrid seedrandom p = Some y"
  shows "\<exists>g used j placed. y = Inr g
           \<and> loop_inv (seedrandom initSeed) (par_M p) (par_N p) j g used placed
           \<and> \<not> placed < par_I0 p"
proof -
  let ?g0 = "replicate (nat (par_M p)) (replicate (nat (par_N p)) (0::int))"
  note fresh = fresh_grid(1)[OF m n] fresh_grid(2)[OF m n, of "seedrandom initSeed"]
  have "makeInitialGrid_loop (seedrandom initSeed) (par_M p) (par_N p) (par_I0 p) 0 ?g0 {} 0 = Some y"
    using ret fresh(1) by (simp add: makeInitialGrid_def)
  from makeInitialGrid_loop_partial[OF this u m(1) n(1) _ fresh(2)] show ?thesis by simp
qed


lemma makeInitialGrid_total_inv:
  assumes u: "unit_draws (seedrandom initSeed)"
    and m: "1 \<le> par_M p" "par_M p < 4294967296" and n: "1 \<le> par_N p" "par_N p < 4294967296"
    and i0: "0 \<le> par_I0 p"
    and J: "par_I0 p \<le> int (card (coord (seedrandom initSeed) (par_M p) (par_N p) ` {..<J}))"
  shows "\<exists>g used j. makeInitialGrid seedrandom p = Some (Inr g)
           \<and> loop_inv (seedrandom initSeed) (par_M p) (par_N p) j g used (par_I0 p)"
proof -
  let ?g0 = "replicate (nat (par_M p)) (replicate (nat (par_N p)) (0::int))"
  note fresh = fresh_grid(1)[OF m n] fresh_grid(2)[OF m n, of "seedrandom initSeed"]
  from makeInitialGrid_loop_total[OF u m(1) n(1) J, of 0 ?g0 "{}" 0] fresh(2) i0
  obtain g used j where r: "makeInitialGrid_loop (seedrandom initSeed) (par_M p) (par_N p) (par_I0 p)
      (2 * 0) ?g0 {} 0 = Some (Inr g)"
    and inv: "loop_inv (seedrandom initSeed) (par_M p) (par_N p) j g used (par_I0 p)"
    by auto
  have "makeInitialGrid seedrandom p = Some (Inr g)"
    using r fresh(1) by (simp add: makeInitialGrid_def)
  then show ?thesis using inv by blast
qed

lemma makeInitialGrid_returns_reached:
  assumes u: "unit_draws (seedrandom initSeed)"
    and m: "1 \<le> par_M p" "par_M p < 4294967296" and n: "1 \<le> par_N p" "par_N p < 4294967296"
    and ret: "makeInitialGrid seedrandom p = Some y"
  shows "\<exists>J. par_I0 p \<le> int (card (coord (seedrandom initSeed) (par_M p) (par_N p) ` {..<J}))"
proof -
  from makeInitialGrid_returns_grid[of seedrandom p, OF u m n ret]
  obtain g used j placed where inv: "loop_inv (seedrandom initSeed) (par_M p) (par_N p) j g used placed"
    and "\<not> placed < par_I0 p"
    by blast
  then have "par_I0 p \<le> int (card (coord (seedrandom initSeed) (par_M p) (par_N p) ` {..<j}))"
    by (simp add: loop_inv_def)
  then show ?thesis ..
qed

lemma makeInitialGrid_returns_first_cells:
  assumes u: "unit_draws (seedrandom initSeed)"
    and m: "1 \<le> par_M p" "par_M p < 4294967296" and n: "1 \<le> par_N p" "par_N p < 4294967296"
    and i0: "0 \<le> par_I0 p"
    and ret: "makeInitialGrid seedrandom p = Some y"
  shows "\<exists>g j. y = Inr g
           \<and> loop_inv (seedrandom initSeed) (par_M p) (par_N p) j g
                (coord (seedrandom initSeed) (par_M p) (par_N p) ` {..<j}) (par_I0 p)"
proof -
  from makeInitialGrid_returns_reached[of seedrandom p, OF u m n ret] obtain J where
    "par_I0 p \<le> int (card (coord (seedrandom initSeed) (par_M p) (par_N p) ` {..<J}))" ..
  from makeInitialGrid_total_inv[of seedrandom p, OF u m n i0 this] ret
  obtain g used j where "y = Inr g"
    and inv: "loop_inv (seedrandom initSeed) (par_M p) (par_N p) j g used (par_I0 p)"
    by auto
  moreover from inv have "used = coord (seedrandom initSeed) (par_M p) (par_N p) ` {..<j}"
    by (simp add: loop_inv_def)
  ultimately show ?thesis by blast
qed





lemma ex_makeInitialGrid: "makeInitialGrid ex_seedrandom ex_params = Some (Inr [[1, 1, 0], [0, 0, 0]])"
  by (simp add: makeInitialGrid_def makeInitialGrid_loop.simps ex_params_def ex_seedrandom_def
      new_grid_def new_array_def write_cell_def numeral_2_eq_2 numeral_3_eq_3)


lemma len_seedrandom_unit: "unit_draws (len_seedrandom seed)"
  by (simp add: unit_draws_def len_seedrandom_def)

lemma len_makeInitialGrid:
  "makeInitialGrid len_seedrandom ex_params = Some (Inr [[1, 1, 0], [0, 0, 0]])"
  by (simp add: makeInitialGrid_def makeInitialGrid_loop.simps ex_params_def len_seedrandom_def
      initSeed_def new_grid_def new_array_def write_cell_def numeral_2_eq_2 numeral_3_eq_3)

lemma len_coords:
  "coord (len_seedrandom initSeed) (par_M ex_params) (par_N ex_params) 0 = (0, 0)"
  "coord (len_seedrandom initSeed) (par_M ex_params) (par_N ex_params) 1 = (0, 0)"
  "coord (len_seedrandom initSeed) (par_M ex_params) (par_N ex_params) 2 = (0, 1)"
  "coord (len_seedrandom initSeed) (par_M ex_params) (par_N ex_params) ` {..<3} = {(0, 0), (0, 1)}"
  by (auto simp: coord_def len_seedrandom_def initSeed_def ex_params_def numeral_3_eq_3
      numeral_2_eq_2 lessThan_Suc)


subsection \<open>The exported runs and means\<close>

lemma runOnceNoAnimate_shape:
  assumes ret: "runOnceNoAnimate p (Some g0) w = Inr (hist, w')"
  shows "length hist = nat (par_T p + 1)
       \<and> (\<forall>k < length hist. rec_t (hist ! k) = int k)
       \<and> (hist \<noteq> [] \<longrightarrow> countStates p g0 = Inr (rec_s (hist ! 0), rec_i (hist ! 0), rec_r (hist ! 0)))"
proof (cases "0 \<le> par_T p + 1")
  case False
  then have "for_each [0..par_T p] (runOnceNoAnimate_body p) (g0, [], w) = Inr (g0, [], w)"
    by simp
  then show ?thesis using False ret by (simp add: runOnceNoAnimate_def)
next
  case t0: True
  let ?I = "\<lambda>t (st :: grid \<times> StepRecord list \<times> world).
      (case st of (g, h, w1) \<Rightarrow>
         length h = nat t \<and> (\<forall>k < length h. rec_t (h ! k) = int k) \<and> (h = [] \<longrightarrow> g = g0)
         \<and> (h \<noteq> [] \<longrightarrow> countStates p g0 = Inr (rec_s (h ! 0), rec_i (h ! 0), rec_r (h ! 0))))"
  from ret obtain g' where loop:
    "for_each [0..par_T p] (runOnceNoAnimate_body p) (g0, [], w) = Inr (g', hist, w')"
    by (auto simp: runOnceNoAnimate_def split: sum.splits)
  have "?I (par_T p + 1) (g', hist, w')"
  proof (rule for_each_range_partial[where I = ?I, OF _ _ t0 loop])
    show "?I 0 (g0, [], w)" by simp
  next
    fix t s s'
    assume t: "0 \<le> t" "t \<le> par_T p" and inv: "?I t s" and b: "runOnceNoAnimate_body p t s = Inr s'"
    obtain g h w1 where s: "s = (g, h, w1)" by (cases s)
    obtain g2 h2 w2 where s': "s' = (g2, h2, w2)" by (cases s')
    from b obtain a b' c where cs: "countStates p g = Inr (a, b', c)"
      and h2: "h2 = h @ [\<lparr>rec_t = t, rec_s = a, rec_i = b', rec_r = c\<rparr>]"
      unfolding s s' by (auto simp: runOnceNoAnimate_body_def Let_def split: sum.splits if_splits)
    from inv have lh: "length h = nat t" and ts: "\<forall>k < length h. rec_t (h ! k) = int k"
      and e: "h = [] \<longrightarrow> g = g0"
      and f: "h \<noteq> [] \<longrightarrow> countStates p g0 = Inr (rec_s (h ! 0), rec_i (h ! 0), rec_r (h ! 0))"
      unfolding s by simp_all
    have l2: "length h2 = nat (t + 1)" using h2 lh t by (simp add: nat_add_distrib)
    have t2: "\<forall>k < length h2. rec_t (h2 ! k) = int k"
    proof (intro allI impI)
      fix k assume "k < length h2"
      then have "k < length h \<or> k = nat t" using h2 lh by auto
      then show "rec_t (h2 ! k) = int k" using ts h2 lh t by (auto simp: nth_append)
    qed
    have f2: "countStates p g0 = Inr (rec_s (h2 ! 0), rec_i (h2 ! 0), rec_r (h2 ! 0))"
    proof (cases "h = []")
      case True
      then show ?thesis using e cs h2 by simp
    next
      case False
      then show ?thesis using f h2 by (simp add: nth_append)
    qed
    show "?I (t + 1) s'" unfolding s' using l2 t2 f2 h2 by simp
  qed
  then show ?thesis by simp
qed

lemma accumulate_loop:
  assumes lh: "length hist = L" and la: "length accS = L" "length accI = L" "length accR = L"
    and L: "L = nat (T + 1)" and T: "0 \<le> T + 1"
  shows "\<exists>accS' accI' accR'.
           for_each [0..T] (accumulate hist) (accS, accI, accR) = Inr (accS', accI', accR')
           \<and> length accS' = L \<and> length accI' = L \<and> length accR' = L
           \<and> (\<forall>u < L. accS' ! u = accS ! u + rec_s (hist ! u)
                      \<and> accI' ! u = accI ! u + rec_i (hist ! u)
                      \<and> accR' ! u = accR ! u + rec_r (hist ! u))"
proof -
  let ?I = "\<lambda>t (st :: int list \<times> int list \<times> int list).
      (case st of (aS, aI, aR) \<Rightarrow>
         length aS = L \<and> length aI = L \<and> length aR = L
         \<and> (\<forall>u < L. aS ! u = accS ! u + (if u < nat t then rec_s (hist ! u) else 0)
                   \<and> aI ! u = accI ! u + (if u < nat t then rec_i (hist ! u) else 0)
                   \<and> aR ! u = accR ! u + (if u < nat t then rec_r (hist ! u) else 0)))"
  have "\<exists>st'. for_each [0..T] (accumulate hist) (accS, accI, accR) = Inr st' \<and> ?I (T + 1) st'"
  proof (rule for_each_range_total[where I = ?I, OF _ _ T])
    show "?I 0 (accS, accI, accR)" using la by simp
  next
    fix t s
    assume t: "0 \<le> t" "t \<le> T" and inv: "?I t s"
    obtain aS aI aR where s: "s = (aS, aI, aR)" by (cases s)
    have tl: "nat t < L" using t L by simp
    have tl': "t < int (length hist)" using tl lh t by simp
    let ?s' = "(aS[nat t := aS ! nat t + rec_s (hist ! nat t)],
               aI[nat t := aI ! nat t + rec_i (hist ! nat t)],
               aR[nat t := aR ! nat t + rec_r (hist ! nat t)])"
    have b: "accumulate hist t s = Inr ?s'" unfolding s using t tl' by (simp add: accumulate_def)
    have n1: "nat (t + 1) = Suc (nat t)" using t by (simp add: nat_add_distrib)
    have "?I (t + 1) ?s'"
      using inv tl unfolding s n1 by (auto simp: nth_list_update less_Suc_eq)
    then show "\<exists>s'. accumulate hist t s = Inr s' \<and> ?I (t + 1) s'" using b by blast
  qed
  then show ?thesis using L by auto
qed

lemma column_sum_snoc: "column_sum f (rs @ [r]) t = column_sum f rs t + f r ! t"
  by (simp add: column_sum_def)

lemma column_sum_mset: "mset rs' = mset rs \<Longrightarrow> column_sum f rs' t = column_sum f rs t"
proof -
  assume "mset rs' = mset rs"
  then have "mset (map (\<lambda>run. f run ! t) rs') = mset (map (\<lambda>run. f run ! t) rs)" by simp
  then have "sum_mset (mset (map (\<lambda>run. f run ! t) rs')) = sum_mset (mset (map (\<lambda>run. f run ! t) rs))"
    by simp
  then show ?thesis unfolding column_sum_def sum_mset_sum_list .
qed

lemma accumulate_loop_any:
  assumes lh: "length hist = nat (T + 1)"
    and la: "length accS = nat (T + 1)" "length accI = nat (T + 1)" "length accR = nat (T + 1)"
  shows "\<exists>accS' accI' accR'.
           for_each [0..T] (accumulate hist) (accS, accI, accR) = Inr (accS', accI', accR')
           \<and> length accS' = nat (T + 1) \<and> length accI' = nat (T + 1) \<and> length accR' = nat (T + 1)
           \<and> (\<forall>u < nat (T + 1). accS' ! u = accS ! u + rec_s (hist ! u)
                      \<and> accI' ! u = accI ! u + rec_i (hist ! u)
                      \<and> accR' ! u = accR ! u + rec_r (hist ! u))"
proof (cases "0 \<le> T + 1")
  case True
  from accumulate_loop[OF lh la refl True] show ?thesis .
next
  case False
  then show ?thesis using la by simp
qed

lemma exportNexpJSON_run_result:
  assumes ret: "exportNexpJSON_run p (Some g) k (rs, (aS, aI, aR), w1) = Inr (rs', (aS', aI', aR'), w2)"
    and la: "length aS = nat (par_T p + 1)" "length aI = nat (par_T p + 1)"
      "length aR = nat (par_T p + 1)"
  shows "\<exists>hist. runOnceNoAnimate p (Some g) w1 = Inr (hist, w2)
           \<and> rs' = rs @ [\<lparr>run_id = k, run_t = map rec_t hist, run_s = map rec_s hist,
                            run_i = map rec_i hist, run_r = map rec_r hist\<rparr>]
           \<and> length aS' = nat (par_T p + 1) \<and> length aI' = nat (par_T p + 1)
           \<and> length aR' = nat (par_T p + 1)
           \<and> (\<forall>u < nat (par_T p + 1). aS' ! u = aS ! u + rec_s (hist ! u)
                      \<and> aI' ! u = aI ! u + rec_i (hist ! u)
                      \<and> aR' ! u = aR ! u + rec_r (hist ! u))"
proof -
  from ret obtain hist where run: "runOnceNoAnimate p (Some g) w1 = Inr (hist, w2)"
    and acc: "for_each [0..par_T p] (accumulate hist) (aS, aI, aR) = Inr (aS', aI', aR')"
    and rs': "rs' = rs @ [\<lparr>run_id = k, run_t = map rec_t hist, run_s = map rec_s hist,
                            run_i = map rec_i hist, run_r = map rec_r hist\<rparr>]"
    by (auto simp: exportNexpJSON_run_def split: sum.splits prod.splits)
  have lh: "length hist = nat (par_T p + 1)" using runOnceNoAnimate_shape[OF run] by simp
  from accumulate_loop_any[OF lh la] acc show ?thesis using run rs' by auto
qed

lemma exportNexpJSON_run_returns:
  assumes run: "runOnceNoAnimate p (Some g) w1 = Inr (hist, w2)"
    and la: "length aS = nat (par_T p + 1)" "length aI = nat (par_T p + 1)"
      "length aR = nat (par_T p + 1)"
  shows "\<exists>st'. exportNexpJSON_run p (Some g) k (rs, (aS, aI, aR), w1) = Inr st'"
proof -
  have lh: "length hist = nat (par_T p + 1)" using runOnceNoAnimate_shape[OF run] by simp
  from accumulate_loop_any[OF lh la] show ?thesis
    using run by (auto simp: exportNexpJSON_run_def)
qed

lemma exportNexpJSON_payload_result:
  "(\<forall>pl w'. exportNexpJSON_payload p Nexp (Some g) w = Inr (pl, w') \<longrightarrow>
      meta_params pl = p \<and> meta_Nexp pl = Nexp \<and> length (runs pl) = nat Nexp
      \<and> (\<forall>j < length (runs pl). run_id (runs pl ! j) = int j
            \<and> length (run_s (runs pl ! j)) = nat (par_T p + 1)
            \<and> length (run_i (runs pl ! j)) = nat (par_T p + 1)
            \<and> length (run_r (runs pl ! j)) = nat (par_T p + 1)
            \<and> (0 \<le> par_T p \<longrightarrow>
                 countStates p g = Inr (run_s (runs pl ! j) ! 0, run_i (runs pl ! j) ! 0,
                                        run_r (runs pl ! j) ! 0)))
      \<and> length (mean_s (mean pl)) = nat (par_T p + 1)
      \<and> length (mean_i (mean pl)) = nat (par_T p + 1)
      \<and> length (mean_r (mean pl)) = nat (par_T p + 1)
      \<and> (\<forall>t < nat (par_T p + 1).
            mean_s (mean pl) ! t = js_divide (column_sum run_s (runs pl) t) Nexp
            \<and> mean_i (mean pl) ! t = js_divide (column_sum run_i (runs pl) t) Nexp
            \<and> mean_r (mean pl) ! t = js_divide (column_sum run_r (runs pl) t) Nexp))
   \<and> (grid_dims p g \<and> par_M p < 4294967296 \<and> par_N p < 4294967296 \<and> par_r p \<le> par_M p
         \<and> 0 \<le> par_T p + 1 \<and> par_T p + 1 < 4294967296 \<longrightarrow>
       (\<exists>res. exportNexpJSON_payload p Nexp (Some g) w = Inr res))"
proof -
  let ?L = "nat (par_T p + 1)"
  let ?acc0 = "replicate ?L (0::int)"
  let ?run_ok = "\<lambda>rs j. run_id (rs ! j) = int j
            \<and> length (run_s (rs ! j)) = ?L \<and> length (run_i (rs ! j)) = ?L
            \<and> length (run_r (rs ! j)) = ?L
            \<and> (0 \<le> par_T p \<longrightarrow>
                 countStates p g = Inr (run_s (rs ! j) ! 0, run_i (rs ! j) ! 0, run_r (rs ! j) ! 0))"
  let ?I = "\<lambda>k (st :: run list \<times> (int list \<times> int list \<times> int list) \<times> world).
      (case st of (rs, (aS, aI, aR), w1) \<Rightarrow>
         length rs = nat k \<and> (\<forall>j < length rs. ?run_ok rs j)
         \<and> length aS = ?L \<and> length aI = ?L \<and> length aR = ?L
         \<and> (\<forall>t < ?L. aS ! t = column_sum run_s rs t \<and> aI ! t = column_sum run_i rs t
                      \<and> aR ! t = column_sum run_r rs t))"
  let ?st0 = "([], (?acc0, ?acc0, ?acc0), w)"
  have init: "?I 0 ?st0" by (simp add: column_sum_def)
  have pres: "?I (k + 1) s'"
    if k: "0 \<le> k" "k \<le> Nexp - 1" and inv: "?I k s"
      and b: "exportNexpJSON_run p (Some g) k s = Inr s'" for k s s'
  proof -
    obtain rs aS aI aR w1 where s: "s = (rs, (aS, aI, aR), w1)" by (cases s) auto
    obtain rs' aS' aI' aR' w2 where s': "s' = (rs', (aS', aI', aR'), w2)" by (cases s') auto
    from inv have lr: "length rs = nat k" and ok: "\<forall>j < length rs. ?run_ok rs j"
      and la: "length aS = ?L" "length aI = ?L" "length aR = ?L"
      and sums: "\<forall>t < ?L. aS ! t = column_sum run_s rs t \<and> aI ! t = column_sum run_i rs t
                      \<and> aR ! t = column_sum run_r rs t"
      unfolding s by simp_all
    from exportNexpJSON_run_result[OF b[unfolded s s'] la]
    obtain hist where run: "runOnceNoAnimate p (Some g) w1 = Inr (hist, w2)"
      and rs': "rs' = rs @ [\<lparr>run_id = k, run_t = map rec_t hist, run_s = map rec_s hist,
                            run_i = map rec_i hist, run_r = map rec_r hist\<rparr>]"
      and la': "length aS' = ?L" "length aI' = ?L" "length aR' = ?L"
      and upd: "\<forall>u < ?L. aS' ! u = aS ! u + rec_s (hist ! u)
                      \<and> aI' ! u = aI ! u + rec_i (hist ! u)
                      \<and> aR' ! u = aR ! u + rec_r (hist ! u)"
      by blast
    note shape = runOnceNoAnimate_shape[OF run]
    have lh: "length hist = ?L" using shape by simp
    have l': "length rs' = nat (k + 1)" using rs' lr k by (simp add: nat_add_distrib)
    have ok': "\<forall>j < length rs'. ?run_ok rs' j"
    proof (intro allI impI)
      fix j assume j: "j < length rs'"
      show "?run_ok rs' j"
      proof (cases "j < length rs")
        case True
        then show ?thesis using ok rs' by (simp add: nth_append)
      next
        case False
        then have jk: "j = length rs" using j rs' by simp
        have first: "0 \<le> par_T p \<longrightarrow>
            countStates p g = Inr (rec_s (hist ! 0), rec_i (hist ! 0), rec_r (hist ! 0))"
          using shape lh by auto
        have "0 \<le> par_T p \<longrightarrow> hist \<noteq> []" using lh by auto
        then show ?thesis using jk rs' lr lh k first by (simp add: nth_append nth_map)
      qed
    qed
    have sums': "\<forall>t < ?L. aS' ! t = column_sum run_s rs' t \<and> aI' ! t = column_sum run_i rs' t
                      \<and> aR' ! t = column_sum run_r rs' t"
      using sums upd lh unfolding rs' by (simp add: column_sum_snoc)
    show ?thesis unfolding s' using l' ok' la' sums' by simp
  qed
  have part: "meta_params pl = p \<and> meta_Nexp pl = Nexp \<and> length (runs pl) = nat Nexp
      \<and> (\<forall>j < length (runs pl). ?run_ok (runs pl) j)
      \<and> length (mean_s (mean pl)) = ?L \<and> length (mean_i (mean pl)) = ?L
      \<and> length (mean_r (mean pl)) = ?L
      \<and> (\<forall>t < ?L.
            mean_s (mean pl) ! t = js_divide (column_sum run_s (runs pl) t) Nexp
            \<and> mean_i (mean pl) ! t = js_divide (column_sum run_i (runs pl) t) Nexp
            \<and> mean_r (mean pl) ! t = js_divide (column_sum run_r (runs pl) t) Nexp)"
    if ret: "exportNexpJSON_payload p Nexp (Some g) w = Inr (pl, w')" for pl w'
  proof -
    from ret obtain rs aS aI aR where
      loop: "for_each [0..Nexp - 1] (exportNexpJSON_run p (Some g)) ?st0 = Inr (rs, (aS, aI, aR), w')"
      and pl: "pl = \<lparr>meta_params = p, meta_Nexp = Nexp, meta_seed_init = initSeed, runs = rs,
                      mean = \<lparr>mean_t = [0..par_T p],
                               mean_s = map (\<lambda>v. js_divide v Nexp) aS,
                               mean_i = map (\<lambda>v. js_divide v Nexp) aI,
                               mean_r = map (\<lambda>v. js_divide v Nexp) aR\<rparr>\<rparr>"
      by (auto simp: exportNexpJSON_payload_def new_array_def split: sum.splits if_splits)
    have fin: "length rs = nat Nexp \<and> (\<forall>j < length rs. ?run_ok rs j)
         \<and> length aS = ?L \<and> length aI = ?L \<and> length aR = ?L
         \<and> (\<forall>t < ?L. aS ! t = column_sum run_s rs t \<and> aI ! t = column_sum run_i rs t
                      \<and> aR ! t = column_sum run_r rs t)"
    proof (cases "0 \<le> Nexp - 1 + 1")
      case True
      have "?I (Nexp - 1 + 1) (rs, (aS, aI, aR), w')"
        by (rule for_each_range_partial[where I = ?I, OF init _ True loop]) (rule pres)
      then show ?thesis by simp
    next
      case False
      then have "for_each [0..Nexp - 1] (exportNexpJSON_run p (Some g)) ?st0 = Inr ?st0" by simp
      then have "rs = []" "aS = ?acc0" "aI = ?acc0" "aR = ?acc0" using loop by simp_all
      then show ?thesis using False by (simp add: column_sum_def)
    qed
    then show ?thesis unfolding pl by simp
  qed
  have prog: "\<exists>res. exportNexpJSON_payload p Nexp (Some g) w = Inr res"
    if lim: "grid_dims p g \<and> par_M p < 4294967296 \<and> par_N p < 4294967296 \<and> par_r p \<le> par_M p
         \<and> 0 \<le> par_T p + 1 \<and> par_T p + 1 < 4294967296"
  proof -
    have na: "new_array (par_T p + 1) = Inr ?acc0" using lim by (simp add: new_array_def)
    have "\<exists>st'. for_each [0..Nexp - 1] (exportNexpJSON_run p (Some g)) ?st0 = Inr st'"
    proof (cases "0 \<le> Nexp - 1 + 1")
      case True
      show ?thesis
      proof (rule for_each_range_progress[where I = ?I, OF init _ _ True])
        fix k s s' assume "0 \<le> k" "k \<le> Nexp - 1" "?I k s" "exportNexpJSON_run p (Some g) k s = Inr s'"
        then show "?I (k + 1) s'" by (rule pres)
      next
        fix k s assume inv: "?I k s"
        obtain rs aS aI aR w1 where s: "s = (rs, (aS, aI, aR), w1)" by (cases s) auto
        from inv have la: "length aS = ?L" "length aI = ?L" "length aR = ?L"
          unfolding s by simp_all
        from runOnceNoAnimate_result[of p g w1] lim
        obtain hist w2 where "runOnceNoAnimate p (Some g) w1 = Inr (hist, w2)" by auto
        from exportNexpJSON_run_returns[OF this la]
        show "\<exists>s'. exportNexpJSON_run p (Some g) k s = Inr s'" unfolding s .
      qed
    next
      case False
      then show ?thesis by simp
    qed
    then show ?thesis using na by (auto simp: exportNexpJSON_payload_def split: prod.splits)
  qed
  show ?thesis using part prog by blast
qed

subsection \<open>The visible run\<close>

lemma timer_callback_result:
  assumes g: "grid c = Some g" and d: "grid_dims p g"
  shows "(\<forall>c' w'. timer_callback p c w = Inr (c', w') \<longrightarrow>
            (\<exists>g1 s i r. step p g w = Inr (g1, w') \<and> grid_dims p g1
               \<and> countStates p g1 = Inr (s, i, r)
               \<and> c' = c\<lparr>grid := Some g1,
                        history := history c @ [\<lparr>rec_t = time c, rec_s = s, rec_i = i, rec_r = r\<rparr>],
                        time := time c + 1, animationRef := animationRef c @ [g1]\<rparr>))
       \<and> (par_M p < 4294967296 \<and> par_N p < 4294967296 \<and> par_r p \<le> par_M p \<longrightarrow>
            (\<exists>res. timer_callback p c w = Inr res))"
proof -
  have part: "\<exists>g1 s i r. step p g w = Inr (g1, w') \<and> grid_dims p g1
               \<and> countStates p g1 = Inr (s, i, r)
               \<and> c' = c\<lparr>grid := Some g1,
                        history := history c @ [\<lparr>rec_t = time c, rec_s = s, rec_i = i, rec_r = r\<rparr>],
                        time := time c + 1, animationRef := animationRef c @ [g1]\<rparr>"
    if ret: "timer_callback p c w = Inr (c', w')" for c' w'
  proof -
    from ret g obtain g1 s i r where st: "step p g w = Inr (g1, w')"
      and cs: "countStates p g1 = Inr (s, i, r)"
      and c': "c' = c\<lparr>grid := Some g1,
                        history := history c @ [\<lparr>rec_t = time c, rec_s = s, rec_i = i, rec_r = r\<rparr>],
                        time := time c + 1, animationRef := animationRef c @ [g1]\<rparr>"
      by (auto simp: timer_callback_def split: sum.splits prod.splits)
    have "grid_dims p g1" using step_result[OF d, of w] st by blast
    then show ?thesis using st cs c' by blast
  qed
  have prog: "\<exists>res. timer_callback p c w = Inr res"
    if lim: "par_M p < 4294967296 \<and> par_N p < 4294967296 \<and> par_r p \<le> par_M p"
  proof -
    from step_result[OF d, of w] lim obtain g1 w1 where st: "step p g w = Inr (g1, w1)" by auto
    then have "grid_dims p g1" using step_result[OF d, of w] by blast
    from countStates_eq[OF this] show ?thesis using g st by (simp add: timer_callback_def)
  qed
  show ?thesis using part prog by blast
qed

lemma visible_run_result:
  "\<forall>g. grid c = Some g \<longrightarrow> grid_dims p g \<longrightarrow> isRunning c \<longrightarrow> time c \<le> par_T p \<longrightarrow>
     (\<forall>c' w'. visible_run p c w = Inr (c', w') \<longrightarrow>
        length (history c') = length (history c) + nat (par_T p - time c)
        \<and> take (length (history c)) (history c') = history c
        \<and> (time c < par_T p \<longrightarrow>
             (\<exists>g1 w1 s i r. step p g w = Inr (g1, w1) \<and> countStates p g1 = Inr (s, i, r)
                \<and> history c' ! length (history c)
                     = \<lparr>rec_t = time c, rec_s = s, rec_i = i, rec_r = r\<rparr>)))
     \<and> (par_M p < 4294967296 \<and> par_N p < 4294967296 \<and> par_r p \<le> par_M p \<longrightarrow>
          (\<exists>res. visible_run p c w = Inr res))"
proof (induction p c w rule: visible_run.induct)
  case (1 p c w)
  show ?case
  proof (intro allI impI)
    fix g
    assume g: "grid c = Some g" and d: "grid_dims p g" and run: "isRunning c"
      and t: "time c \<le> par_T p"
    note cb = timer_callback_result[OF g d, of w]
    show "(\<forall>c' w'. visible_run p c w = Inr (c', w') \<longrightarrow>
        length (history c') = length (history c) + nat (par_T p - time c)
        \<and> take (length (history c)) (history c') = history c
        \<and> (time c < par_T p \<longrightarrow>
             (\<exists>g1 w1 s i r. step p g w = Inr (g1, w1) \<and> countStates p g1 = Inr (s, i, r)
                \<and> history c' ! length (history c)
                     = \<lparr>rec_t = time c, rec_s = s, rec_i = i, rec_r = r\<rparr>)))
     \<and> (par_M p < 4294967296 \<and> par_N p < 4294967296 \<and> par_r p \<le> par_M p \<longrightarrow>
          (\<exists>res. visible_run p c w = Inr res))"
    proof (cases "par_T p \<le> time c")
      case True
      then have "visible_run p c w = Inr (c\<lparr>isRunning := False\<rparr>, w)"
        by (subst visible_run.simps) simp
      then show ?thesis using True t by auto
    next
      case False
      then have go: "\<not> (\<not> isRunning c \<or> grid c = None \<or> par_T p \<le> time c)"
        using run g by simp
      have unf: "visible_run p c w =
          (case timer_callback p c w of Inl e \<Rightarrow> Inl e | Inr (c1, w1) \<Rightarrow> visible_run p c1 w1)"
        using run g False by (subst visible_run.simps) simp
      have part: "length (history c') = length (history c) + nat (par_T p - time c)
        \<and> take (length (history c)) (history c') = history c
        \<and> (\<exists>g1 w1 s i r. step p g w = Inr (g1, w1) \<and> countStates p g1 = Inr (s, i, r)
                \<and> history c' ! length (history c)
                     = \<lparr>rec_t = time c, rec_s = s, rec_i = i, rec_r = r\<rparr>)"
        if ret: "visible_run p c w = Inr (c', w')" for c' w'
      proof -
        from ret unf obtain c1 w1 where tc: "timer_callback p c w = Inr (c1, w1)"
          and rest: "visible_run p c1 w1 = Inr (c', w')"
          by (auto split: sum.splits prod.splits)
        from cb tc obtain g1 s i r where st: "step p g w = Inr (g1, w1)" and d1: "grid_dims p g1"
          and cs: "countStates p g1 = Inr (s, i, r)"
          and c1: "c1 = c\<lparr>grid := Some g1,
                        history := history c @ [\<lparr>rec_t = time c, rec_s = s, rec_i = i, rec_r = r\<rparr>],
                        time := time c + 1, animationRef := animationRef c @ [g1]\<rparr>"
          by blast
        have pre: "grid c1 = Some g1" "isRunning c1" "time c1 \<le> par_T p"
          using c1 run False by simp_all
        from "1.IH"[OF go tc refl] pre d1 rest
        have l: "length (history c') = length (history c1) + nat (par_T p - time c1)"
          and tk: "take (length (history c1)) (history c') = history c1"
          by blast+
        have l': "length (history c') = length (history c) + nat (par_T p - time c)"
          using l c1 False by simp
        have h1: "history c1 = history c @ [\<lparr>rec_t = time c, rec_s = s, rec_i = i, rec_r = r\<rparr>]"
          using c1 by simp
        have lt: "length (history c) < length (history c1)" using h1 by simp
        have "take (length (history c)) (history c')
                = take (length (history c)) (take (length (history c1)) (history c'))"
          using lt by (simp add: min_def)
        also have "\<dots> = take (length (history c)) (history c1)" by (simp only: tk)
        also have "\<dots> = history c" by (simp add: h1)
        finally have tk': "take (length (history c)) (history c') = history c" .
        have "history c' ! length (history c) = take (length (history c1)) (history c') ! length (history c)"
          using lt by simp
        also have "\<dots> = history c1 ! length (history c)" by (simp only: tk)
        also have "\<dots> = \<lparr>rec_t = time c, rec_s = s, rec_i = i, rec_r = r\<rparr>" by (simp add: h1)
        finally have "history c' ! length (history c) = \<lparr>rec_t = time c, rec_s = s, rec_i = i, rec_r = r\<rparr>" .
        then show ?thesis using l' tk' st cs by blast
      qed
      have prog: "\<exists>res. visible_run p c w = Inr res"
        if lim: "par_M p < 4294967296 \<and> par_N p < 4294967296 \<and> par_r p \<le> par_M p"
      proof -
        from cb lim obtain c1 w1 where tc: "timer_callback p c w = Inr (c1, w1)" by auto
        from cb tc obtain g1 s i r where d1: "grid_dims p g1"
          and c1: "c1 = c\<lparr>grid := Some g1,
                        history := history c @ [\<lparr>rec_t = time c, rec_s = s, rec_i = i, rec_r = r\<rparr>],
                        time := time c + 1, animationRef := animationRef c @ [g1]\<rparr>"
          by blast
        have pre: "grid c1 = Some g1" "isRunning c1" "time c1 \<le> par_T p"
          using c1 run False by simp_all
        from "1.IH"[OF go tc refl] pre d1 lim
        have "\<exists>res. visible_run p c1 w1 = Inr res" by blast
        then show ?thesis using unf tc by simp
      qed
      show ?thesis using part prog False by auto
    qed
  qed
qed

subsection \<open>The means of the export\<close>

lemma column_sum_nth: "column_sum f rs t = (\<Sum>k<length rs. f (rs ! k) ! t)"
proof -
  have "sum_list (map (\<lambda>run. f run ! t) rs) = (\<Sum>k = 0..<length rs. map (\<lambda>run. f run ! t) rs ! k)"
    using sum_list_sum_nth[of "map (\<lambda>run. f run ! t) rs"] by simp
  also have "\<dots> = (\<Sum>k<length rs. f (rs ! k) ! t)"
    by (intro sum.cong) (auto simp: atLeast0LessThan)
  finally show ?thesis by (simp add: column_sum_def)
qed

lemma exportNexpJSON_cases:
  assumes "exportNexpJSON seedrandom p Nexp c w = Some (Inr (pl, c', w'))"
  shows "\<exists>g. exportNexpJSON_payload p Nexp (Some g) w = Inr (pl, w') \<and> initGridRef c' = Some g
           \<and> (case initGridRef c of None \<Rightarrow> makeInitialGrid seedrandom p = Some (Inr g)
               | Some g0 \<Rightarrow> g = g0)"
  using assms
  by (auto simp: exportNexpJSON_def split: option.splits sum.splits prod.splits)

text \<open>
  Claim C4: aggregation correctness. For every \<open>Nexp \<ge> 1\<close> and every \<open>t\<close> in
  \<open>[0, T]\<close>, the payload that \<open>exportNexpJSON\<close> builds has
  \<open>mean.s[t] = (\<Sum>k < Nexp. runs[k].s[t]) / Nexp\<close>, and likewise for \<open>mean.i[t]\<close> and
  \<open>mean.r[t]\<close>: a sum followed by one division (of real numbers here), and the sum is
  the same for the runs in any order. The export returns when the initial grid has
  \<open>M\<close> rows and \<open>N\<close> columns, the radius is at most \<open>M\<close>, and \<open>M\<close>, \<open>N\<close>, \<open>T + 1\<close>
  are lengths an array can have.
\<close>

theorem mean_is_arithmetic_mean:
  "(\<forall>pl c' w'. exportNexpJSON seedrandom p Nexp c w = Some (Inr (pl, c', w')) \<longrightarrow> 1 \<le> Nexp \<longrightarrow>
      length (runs pl) = nat Nexp
      \<and> (\<forall>t. 0 \<le> t \<and> t \<le> par_T p \<longrightarrow>
            mean_s (mean pl) ! nat t
              = Some (real_of_int (\<Sum>k<nat Nexp. run_s (runs pl ! k) ! nat t) / real_of_int Nexp)
            \<and> mean_i (mean pl) ! nat t
              = Some (real_of_int (\<Sum>k<nat Nexp. run_i (runs pl ! k) ! nat t) / real_of_int Nexp)
            \<and> mean_r (mean pl) ! nat t
              = Some (real_of_int (\<Sum>k<nat Nexp. run_r (runs pl ! k) ! nat t) / real_of_int Nexp)
            \<and> (\<forall>rs'. mset rs' = mset (runs pl) \<longrightarrow>
                  column_sum run_s rs' (nat t) = (\<Sum>k<nat Nexp. run_s (runs pl ! k) ! nat t)
                  \<and> column_sum run_i rs' (nat t) = (\<Sum>k<nat Nexp. run_i (runs pl ! k) ! nat t)
                  \<and> column_sum run_r rs' (nat t) = (\<Sum>k<nat Nexp. run_r (runs pl ! k) ! nat t))))
   \<and> (\<forall>g. initGridRef c = Some g \<and> grid_dims p g
          \<and> par_M p < 4294967296 \<and> par_N p < 4294967296 \<and> par_r p \<le> par_M p
          \<and> 0 \<le> par_T p + 1 \<and> par_T p + 1 < 4294967296 \<longrightarrow>
        (\<exists>res. exportNexpJSON seedrandom p Nexp c w = Some (Inr res)))"
proof -
  have part: "length (runs pl) = nat Nexp
      \<and> (\<forall>t. 0 \<le> t \<and> t \<le> par_T p \<longrightarrow>
            mean_s (mean pl) ! nat t
              = Some (real_of_int (\<Sum>k<nat Nexp. run_s (runs pl ! k) ! nat t) / real_of_int Nexp)
            \<and> mean_i (mean pl) ! nat t
              = Some (real_of_int (\<Sum>k<nat Nexp. run_i (runs pl ! k) ! nat t) / real_of_int Nexp)
            \<and> mean_r (mean pl) ! nat t
              = Some (real_of_int (\<Sum>k<nat Nexp. run_r (runs pl ! k) ! nat t) / real_of_int Nexp)
            \<and> (\<forall>rs'. mset rs' = mset (runs pl) \<longrightarrow>
                  column_sum run_s rs' (nat t) = (\<Sum>k<nat Nexp. run_s (runs pl ! k) ! nat t)
                  \<and> column_sum run_i rs' (nat t) = (\<Sum>k<nat Nexp. run_i (runs pl ! k) ! nat t)
                  \<and> column_sum run_r rs' (nat t) = (\<Sum>k<nat Nexp. run_r (runs pl ! k) ! nat t)))"
    if ret: "exportNexpJSON seedrandom p Nexp c w = Some (Inr (pl, c', w'))" and n: "1 \<le> Nexp"
    for pl c' w'
  proof -
    from exportNexpJSON_cases[OF ret] obtain g where
      pay: "exportNexpJSON_payload p Nexp (Some g) w = Inr (pl, w')" by blast
    from exportNexpJSON_payload_result[of p Nexp g w] pay
    have len: "length (runs pl) = nat Nexp"
      and means: "\<forall>t < nat (par_T p + 1).
            mean_s (mean pl) ! t = js_divide (column_sum run_s (runs pl) t) Nexp
            \<and> mean_i (mean pl) ! t = js_divide (column_sum run_i (runs pl) t) Nexp
            \<and> mean_r (mean pl) ! t = js_divide (column_sum run_r (runs pl) t) Nexp"
      by blast+
    have cs: "column_sum f (runs pl) u = (\<Sum>k<nat Nexp. f (runs pl ! k) ! u)" for f u
      using column_sum_nth[of f "runs pl" u] len by simp
    have dv: "js_divide v Nexp = Some (real_of_int v / real_of_int Nexp)" for v
      using n by (simp add: js_divide_def)
    show ?thesis
    proof (intro conjI allI impI)
      show "length (runs pl) = nat Nexp" by (rule len)
    next
      fix t assume t: "0 \<le> t \<and> t \<le> par_T p"
      then have tl: "nat t < nat (par_T p + 1)" by simp
      show "mean_s (mean pl) ! nat t
              = Some (real_of_int (\<Sum>k<nat Nexp. run_s (runs pl ! k) ! nat t) / real_of_int Nexp)"
        using means tl cs[of run_s] dv by simp
      show "mean_i (mean pl) ! nat t
              = Some (real_of_int (\<Sum>k<nat Nexp. run_i (runs pl ! k) ! nat t) / real_of_int Nexp)"
        using means tl cs[of run_i] dv by simp
      show "mean_r (mean pl) ! nat t
              = Some (real_of_int (\<Sum>k<nat Nexp. run_r (runs pl ! k) ! nat t) / real_of_int Nexp)"
        using means tl cs[of run_r] dv by simp
    next
      fix t rs' assume "0 \<le> t \<and> t \<le> par_T p" and ms: "mset rs' = mset (runs pl)"
      show "column_sum run_s rs' (nat t) = (\<Sum>k<nat Nexp. run_s (runs pl ! k) ! nat t)"
        using column_sum_mset[OF ms, of run_s] cs[of run_s] by simp
      show "column_sum run_i rs' (nat t) = (\<Sum>k<nat Nexp. run_i (runs pl ! k) ! nat t)"
        using column_sum_mset[OF ms, of run_i] cs[of run_i] by simp
      show "column_sum run_r rs' (nat t) = (\<Sum>k<nat Nexp. run_r (runs pl ! k) ! nat t)"
        using column_sum_mset[OF ms, of run_r] cs[of run_r] by simp
    qed
  qed
  have prog: "\<exists>res. exportNexpJSON seedrandom p Nexp c w = Some (Inr res)"
    if "initGridRef c = Some g \<and> grid_dims p g
          \<and> par_M p < 4294967296 \<and> par_N p < 4294967296 \<and> par_r p \<le> par_M p
          \<and> 0 \<le> par_T p + 1 \<and> par_T p + 1 < 4294967296" for g
  proof -
    from exportNexpJSON_payload_result[of p Nexp g w] that
    obtain pl w' where "exportNexpJSON_payload p Nexp (Some g) w = Inr (pl, w')" by auto
    then show ?thesis using that by (simp add: exportNexpJSON_def)
  qed
  show ?thesis using part prog by blast
qed

lemma ex_export:
  "map_option (map_sum id (\<lambda>(pl, c', w'). (map run_r (runs pl), mean_r (mean pl))))
     (exportNexpJSON ex_seedrandom ex_params 2 (ex_component\<lparr>initGridRef := None\<rparr>) ex_world)
   = Some (Inr ([[0, 1, 2], [0, 1, 1]], [Some 0, Some 1, Some (3 / 2)]))"
  by code_simp

theorem mean_is_arithmetic_mean_witness:
  "\<exists>pl c' w'. exportNexpJSON ex_seedrandom ex_params 2 (ex_component\<lparr>initGridRef := None\<rparr>) ex_world
       = Some (Inr (pl, c', w'))
     \<and> map run_r (runs pl) = [[0, 1, 2], [0, 1, 1]]
     \<and> mean_r (mean pl) ! 2 = Some (3 / 2)
     \<and> mean_r (mean pl) ! nat 2
          = Some (real_of_int (\<Sum>k<nat 2. run_r (runs pl ! k) ! nat 2) / real_of_int 2)"
proof -
  let ?e = "exportNexpJSON ex_seedrandom ex_params 2 (ex_component\<lparr>initGridRef := None\<rparr>) ex_world"
  from ex_export obtain x where x: "?e = Some x"
    and mx: "map_sum id (\<lambda>(pl, c', w'). (map run_r (runs pl), mean_r (mean pl))) x
              = Inr ([[0, 1, 2], [0, 1, 1]], [Some 0, Some 1, Some (3 / 2)])"
    by (cases ?e) auto
  from mx obtain y where y: "x = Inr y" by (cases x) auto
  obtain pl c' w' where t3: "y = (pl, c', w')" by (cases y)
  have e: "?e = Some (Inr (pl, c', w'))" using x y t3 by simp
  have r: "map run_r (runs pl) = [[0, 1, 2], [0, 1, 1]]"
    and m: "mean_r (mean pl) = [Some 0, Some 1, Some (3 / 2)]"
    using mx y t3 by simp_all
  have t: "(0::int) \<le> 2 \<and> 2 \<le> par_T ex_params" by (simp add: ex_params_def)
  have n: "(1::int) \<le> 2" by simp
  note th = mean_is_arithmetic_mean[of ex_seedrandom ex_params 2
      "ex_component\<lparr>initGridRef := None\<rparr>" ex_world]
  from th[THEN conjunct1, rule_format, OF e n, THEN conjunct2, rule_format, OF t]
  have a: "mean_r (mean pl) ! nat 2
          = Some (real_of_int (\<Sum>k<nat 2. run_r (runs pl ! k) ! nat 2) / real_of_int 2)"
    by blast
  have b: "mean_r (mean pl) ! 2 = Some (3 / 2)" using m by simp
  show ?thesis
    by (rule exI[of _ pl], rule exI[of _ c'], rule exI[of _ w']) (intro conjI e r a b)
qed

subsection \<open>Determinism and validation of the initializer\<close>

lemma first_cells_unique:
  assumes "card (f ` {..<j}) = card (f ` {..<j'})"
  shows "f ` {..<j'} = f ` {..<(j::nat)}"
proof (cases "j \<le> j'")
  case True
  then have "f ` {..<j} \<subseteq> f ` {..<j'}" by (intro image_mono) simp
  from card_subset_eq[OF _ this] assms show ?thesis by simp
next
  case False
  then have "f ` {..<j'} \<subseteq> f ` {..<j}" by (intro image_mono) simp
  from card_subset_eq[OF _ this] assms show ?thesis by simp
qed

lemma makeInitialGrid_params:
  assumes "par_M p = par_M q" and "par_N p = par_N q" and "par_I0 p = par_I0 q"
    and "seedrandom initSeed = seedrandom' initSeed"
  shows "makeInitialGrid seedrandom p = makeInitialGrid seedrandom' q"
  unfolding makeInitialGrid_def assms by (rule refl)

lemma initializeGrid_fresh:
  assumes "initGridRef c = None" and "initializeGrid seedrandom p c w = Some (Inr (c', w'))"
  shows "\<exists>g. makeInitialGrid seedrandom p = Some (Inr g) \<and> grid c' = Some g
           \<and> initGridRef c' = Some g \<and> w' = w"
  using assms by (auto simp: initializeGrid_def split: option.splits sum.splits)

lemma initializeGrid_again:
  assumes "initGridRef c = Some g"
  shows "\<exists>c'. initializeGrid seedrandom p c w = Some (Inr (c', w)) \<and> grid c' = Some g
           \<and> initGridRef c' = Some g"
  using assms by (simp add: initializeGrid_def)

text \<open>
  Claim C3, as stated, on the initializer of \<open>App.jsx\<close>, which has no seed: with the
  same \<open>(M, N, I0) = (2, 3, 2)\<close> and the same sequence of \<open>Math.random()\<close>, one
  earlier call of \<open>Math.random()\<close> changes the cells it infects.
\<close>

theorem App_initializeGrid_depends_on_calls:
  "map_sum id fst (App_initializeGrid ex_params ex_world) = Inr [[0, 1, 0], [0, 0, 0]]
   \<and> map_sum id fst (App_initializeGrid ex_params (ex_world\<lparr>calls := 1\<rparr>))
        = Inr [[0, 0, 0], [1, 0, 0]]"
  by code_simp

text \<open>
  Claim C3, amended: determinism of the seeded initializer. \<open>makeInitialGrid\<close> makes
  its own generator from the fixed seed on every call and reads \<open>M\<close>, \<open>N\<close> and \<open>I0\<close>
  and nothing else: two invocations with the same \<open>(M, N, I0)\<close> and the same seeded
  sequence give the same result, whatever the other parameters. The cells it infects
  are the first \<open>I0\<close> distinct cells of the seeded sequence, and no others.
  \<open>initializeGrid\<close> shows the same grid from whatever state of the component and of
  \<open>Math.random()\<close> it is called, leaves \<open>Math.random()\<close> untouched, and shows it again
  when called again. Every run of one export starts from the grid in \<open>initGridRef\<close>:
  the first entries of each run's arrays are the counts of that one grid. Two exports
  that start without a grid, from whatever states of the component and of
  \<open>Math.random()\<close> and with whatever numbers of runs, keep the same grid, and all
  their runs start with the same counts, while their later entries follow the draws.
\<close>

theorem seeded_initializer_deterministic:
  assumes "par_M p = par_M q" and "par_N p = par_N q" and "par_I0 p = par_I0 q"
    and "seedrandom initSeed = seedrandom' initSeed"
  shows "makeInitialGrid seedrandom p = makeInitialGrid seedrandom' q
       \<and> (unit_draws (seedrandom initSeed) \<and> 1 \<le> par_M p \<and> par_M p < 4294967296
            \<and> 1 \<le> par_N p \<and> par_N p < 4294967296 \<and> 0 \<le> par_I0 p \<longrightarrow>
          (\<forall>y. makeInitialGrid seedrandom p = Some y \<longrightarrow>
             (\<exists>g j. y = Inr g \<and> grid_dims p g
                \<and> marks g (coord (seedrandom initSeed) (par_M p) (par_N p) ` {..<j})
                \<and> int (card (coord (seedrandom initSeed) (par_M p) (par_N p) ` {..<j})) = par_I0 p
                \<and> (\<forall>j'. int (card (coord (seedrandom initSeed) (par_M p) (par_N p) ` {..<j'})) = par_I0 p
                      \<longrightarrow> coord (seedrandom initSeed) (par_M p) (par_N p) ` {..<j'}
                            = coord (seedrandom initSeed) (par_M p) (par_N p) ` {..<j}))))
       \<and> (\<forall>c d w v c' d' w' v'. initGridRef c = None \<and> initGridRef d = None
             \<and> initializeGrid seedrandom p c w = Some (Inr (c', w'))
             \<and> initializeGrid seedrandom' q d v = Some (Inr (d', v')) \<longrightarrow>
             grid c' = grid d' \<and> initGridRef c' = grid c' \<and> w' = w \<and> v' = v
             \<and> (\<forall>u. \<exists>c''. initializeGrid seedrandom p c' u = Some (Inr (c'', u))
                       \<and> grid c'' = grid c'))
       \<and> (\<forall>Nexp c w pl c' w'. exportNexpJSON seedrandom p Nexp c w = Some (Inr (pl, c', w'))
             \<and> 0 \<le> par_T p \<longrightarrow>
             (\<exists>g. initGridRef c' = Some g
                \<and> (case initGridRef c of None \<Rightarrow> makeInitialGrid seedrandom p = Some (Inr g)
                    | Some g0 \<Rightarrow> g = g0)
                \<and> (\<forall>j < length (runs pl).
                      countStates p g = Inr (run_s (runs pl ! j) ! 0, run_i (runs pl ! j) ! 0,
                                             run_r (runs pl ! j) ! 0))))
       \<and> (\<forall>Nexp Nexp' c d w v pl pl' c' d' w' v'. initGridRef c = None \<and> initGridRef d = None
             \<and> exportNexpJSON seedrandom p Nexp c w = Some (Inr (pl, c', w'))
             \<and> exportNexpJSON seedrandom' q Nexp' d v = Some (Inr (pl', d', v'))
             \<and> 0 \<le> par_T p \<and> 0 \<le> par_T q \<longrightarrow>
             initGridRef c' = initGridRef d'
             \<and> (\<forall>j < length (runs pl). \<forall>k < length (runs pl').
                   run_s (runs pl ! j) ! 0 = run_s (runs pl' ! k) ! 0
                   \<and> run_i (runs pl ! j) ! 0 = run_i (runs pl' ! k) ! 0
                   \<and> run_r (runs pl ! j) ! 0 = run_r (runs pl' ! k) ! 0))"
  (is "?same \<and> ?first \<and> ?init \<and> ?batch \<and> ?batches")
proof -
  let ?cells = "\<lambda>j. coord (seedrandom initSeed) (par_M p) (par_N p) ` {..<j}"
  note same = makeInitialGrid_params[of p q seedrandom seedrandom', OF assms]
  have f: "\<exists>g j. y = Inr g \<and> grid_dims p g \<and> marks g (?cells j) \<and> int (card (?cells j)) = par_I0 p
             \<and> (\<forall>j'. int (card (?cells j')) = par_I0 p \<longrightarrow> ?cells j' = ?cells j)"
    if h: "unit_draws (seedrandom initSeed) \<and> 1 \<le> par_M p \<and> par_M p < 4294967296
            \<and> 1 \<le> par_N p \<and> par_N p < 4294967296 \<and> 0 \<le> par_I0 p"
      and r: "makeInitialGrid seedrandom p = Some y" for y
  proof -
    from makeInitialGrid_returns_first_cells[of seedrandom p y] h r
    obtain g j where y: "y = Inr g"
      and inv: "loop_inv (seedrandom initSeed) (par_M p) (par_N p) j g (?cells j) (par_I0 p)"
      by blast
    from inv have d: "grid_dims p g" and mk: "marks g (?cells j)"
      and cd: "int (card (?cells j)) = par_I0 p"
      unfolding loop_inv_def grid_dims_def by simp_all
    have "?cells j' = ?cells j" if "int (card (?cells j')) = par_I0 p" for j'
      using that cd by (intro first_cells_unique) simp
    then show ?thesis using y d mk cd by blast
  qed
  have a: "grid c' = grid d' \<and> initGridRef c' = grid c' \<and> w' = w \<and> v' = v
             \<and> (\<forall>u. \<exists>c''. initializeGrid seedrandom p c' u = Some (Inr (c'', u))
                       \<and> grid c'' = grid c')"
    if h: "initGridRef c = None \<and> initGridRef d = None
             \<and> initializeGrid seedrandom p c w = Some (Inr (c', w'))
             \<and> initializeGrid seedrandom' q d v = Some (Inr (d', v'))" for c d w v c' d' w' v'
  proof -
    from h initializeGrid_fresh[of c seedrandom p w c' w'] obtain g where
      g: "makeInitialGrid seedrandom p = Some (Inr g)" "grid c' = Some g" "initGridRef c' = Some g"
        "w' = w"
      by blast
    from h initializeGrid_fresh[of d seedrandom' q v d' v'] obtain g' where
      g': "makeInitialGrid seedrandom' q = Some (Inr g')" "grid d' = Some g'" "v' = v"
      by blast
    have "g = g'" using g(1) g'(1) same by simp
    then show ?thesis using g g' initializeGrid_again[OF g(3), of seedrandom p] by auto
  qed
  have b: "\<exists>g. initGridRef c' = Some g
                \<and> (case initGridRef c of None \<Rightarrow> makeInitialGrid sr p' = Some (Inr g)
                    | Some g0 \<Rightarrow> g = g0)
                \<and> (\<forall>j < length (runs pl).
                      countStates p' g = Inr (run_s (runs pl ! j) ! 0, run_i (runs pl ! j) ! 0,
                                              run_r (runs pl ! j) ! 0))"
    if h: "exportNexpJSON sr p' Nexp c w = Some (Inr (pl, c', w')) \<and> 0 \<le> par_T p'"
    for sr p' Nexp c w pl c' w'
  proof -
    from h exportNexpJSON_cases[of sr p' Nexp c w pl c' w'] obtain g where
      pay: "exportNexpJSON_payload p' Nexp (Some g) w = Inr (pl, w')"
      and ref: "initGridRef c' = Some g"
      and src: "case initGridRef c of None \<Rightarrow> makeInitialGrid sr p' = Some (Inr g)
                | Some g0 \<Rightarrow> g = g0"
      by blast
    from exportNexpJSON_payload_result[of p' Nexp g w] pay h
    have "\<forall>j < length (runs pl).
            countStates p' g = Inr (run_s (runs pl ! j) ! 0, run_i (runs pl ! j) ! 0,
                                    run_r (runs pl ! j) ! 0)"
      by blast
    then show ?thesis using ref src by blast
  qed
  have b1: "\<exists>g. initGridRef c' = Some g
                \<and> (case initGridRef c of None \<Rightarrow> makeInitialGrid seedrandom p = Some (Inr g)
                    | Some g0 \<Rightarrow> g = g0)
                \<and> (\<forall>j < length (runs pl).
                      countStates p g = Inr (run_s (runs pl ! j) ! 0, run_i (runs pl ! j) ! 0,
                                             run_r (runs pl ! j) ! 0))"
    if "exportNexpJSON seedrandom p Nexp c w = Some (Inr (pl, c', w')) \<and> 0 \<le> par_T p"
    for Nexp c w pl c' w'
    using b[OF that] .
  have cs: "countStates q g = countStates p g" for g
    by (simp add: countStates_def assms(1,2))
  have c: "initGridRef c' = initGridRef d'
             \<and> (\<forall>j < length (runs pl). \<forall>k < length (runs pl').
                   run_s (runs pl ! j) ! 0 = run_s (runs pl' ! k) ! 0
                   \<and> run_i (runs pl ! j) ! 0 = run_i (runs pl' ! k) ! 0
                   \<and> run_r (runs pl ! j) ! 0 = run_r (runs pl' ! k) ! 0)"
    if h: "initGridRef c = None \<and> initGridRef d = None
             \<and> exportNexpJSON seedrandom p Nexp c w = Some (Inr (pl, c', w'))
             \<and> exportNexpJSON seedrandom' q Nexp' d v = Some (Inr (pl', d', v'))
             \<and> 0 \<le> par_T p \<and> 0 \<le> par_T q"
    for Nexp Nexp' c d w v pl pl' c' d' w' v'
  proof -
    from h b[of seedrandom p Nexp c w pl c' w'] obtain g where
      g: "initGridRef c' = Some g" "makeInitialGrid seedrandom p = Some (Inr g)"
      and gr: "\<And>j. j < length (runs pl) \<Longrightarrow>
            countStates p g = Inr (run_s (runs pl ! j) ! 0, run_i (runs pl ! j) ! 0,
                                   run_r (runs pl ! j) ! 0)"
      by auto
    from h b[of seedrandom' q Nexp' d v pl' d' v'] obtain g' where
      g': "initGridRef d' = Some g'" "makeInitialGrid seedrandom' q = Some (Inr g')"
      and gr': "\<And>k. k < length (runs pl') \<Longrightarrow>
            countStates q g' = Inr (run_s (runs pl' ! k) ! 0, run_i (runs pl' ! k) ! 0,
                                    run_r (runs pl' ! k) ! 0)"
      by auto
    have eq: "g = g'" using g(2) g'(2) same by simp
    have "run_s (runs pl ! j) ! 0 = run_s (runs pl' ! k) ! 0
          \<and> run_i (runs pl ! j) ! 0 = run_i (runs pl' ! k) ! 0
          \<and> run_r (runs pl ! j) ! 0 = run_r (runs pl' ! k) ! 0"
      if "j < length (runs pl)" "k < length (runs pl')" for j k
      using gr[OF that(1)] gr'[OF that(2)] cs[of g] eq by simp
    then show ?thesis using g(1) g'(1) eq by simp
  qed
  have 1: ?first using f by blast
  have 2: ?init using a by blast
  have 3: ?batch using b1 by blast
  have 4: ?batches using c by blast
  show ?thesis using same 1 2 3 4 by (intro conjI)
qed

lemma len_exports:
  "map_option (map_sum id (\<lambda>(pl, c', w').
       (map (\<lambda>r. (run_s r, run_i r, run_r r)) (runs pl), initGridRef c')))
     (exportNexpJSON len_seedrandom ex_params 2 (ex_component\<lparr>initGridRef := None\<rparr>) ex_world)
   = Some (Inr ([([4, 2, 0], [2, 3, 4], [0, 1, 2]), ([4, 2, 0], [2, 3, 5], [0, 1, 1])],
                Some [[1, 1, 0], [0, 0, 0]]))"
  "map_option (map_sum id (\<lambda>(pl, c', w').
       (map (\<lambda>r. (run_s r, run_i r, run_r r)) (runs pl), initGridRef c')))
     (exportNexpJSON len_seedrandom
        (ex_params\<lparr>par_T := 3, par_r := 2, par_beta := 1/2, par_alpha := 1/3\<rparr>) 3
        (ex_component\<lparr>initGridRef := None, grid := None, time := 9, isRunning := False\<rparr>)
        (ex_world\<lparr>calls := 1\<rparr>))
   = Some (Inr ([([4, 2, 0, 0], [2, 3, 5, 2], [0, 1, 1, 4]), ([4, 2, 0, 0], [2, 3, 5, 2], [0, 1, 1, 4]),
                 ([4, 2, 0, 0], [2, 3, 5, 2], [0, 1, 1, 4])],
                Some [[1, 1, 0], [0, 0, 0]]))"
  by code_simp+

lemma map_option_sum_triple:
  assumes "map_option (map_sum id (\<lambda>(pl, c', w'). f pl c')) e = Some (Inr v)"
  shows "\<exists>pl c' w'. e = Some (Inr (pl, c', w')) \<and> f pl c' = v"
proof -
  from assms obtain x where x: "e = Some x" and mx: "map_sum id (\<lambda>(pl, c', w'). f pl c') x = Inr v"
    by (cases e) auto
  from mx obtain y where y: "x = Inr y" by (cases x) auto
  obtain pl c' w' where "y = (pl, c', w')" by (cases y)
  then show ?thesis using x y mx by auto
qed

theorem seeded_initializer_deterministic_witness:
  "par_M ex_params = par_M (ex_params\<lparr>par_T := 3, par_r := 2, par_beta := 1/2, par_alpha := 1/3\<rparr>)
   \<and> par_N ex_params = par_N (ex_params\<lparr>par_T := 3, par_r := 2, par_beta := 1/2, par_alpha := 1/3\<rparr>)
   \<and> par_I0 ex_params = par_I0 (ex_params\<lparr>par_T := 3, par_r := 2, par_beta := 1/2, par_alpha := 1/3\<rparr>)
   \<and> len_seedrandom ''another seed'' \<noteq> len_seedrandom initSeed
   \<and> makeInitialGrid len_seedrandom ex_params = Some (Inr [[1, 1, 0], [0, 0, 0]])
   \<and> makeInitialGrid len_seedrandom (ex_params\<lparr>par_T := 3, par_r := 2, par_beta := 1/2, par_alpha := 1/3\<rparr>)
        = Some (Inr [[1, 1, 0], [0, 0, 0]])
   \<and> coord (len_seedrandom initSeed) (par_M ex_params) (par_N ex_params) ` {..<3} = {(0, 0), (0, 1)}
   \<and> (\<exists>j. marks [[1, 1, 0], [0, 0, 0]]
              (coord (len_seedrandom initSeed) (par_M ex_params) (par_N ex_params) ` {..<j})
          \<and> coord (len_seedrandom initSeed) (par_M ex_params) (par_N ex_params) ` {..<j}
               = {(0, 0), (0, 1)})
   \<and> (\<exists>c' d'.
         initializeGrid len_seedrandom ex_params (ex_component\<lparr>initGridRef := None\<rparr>) ex_world
           = Some (Inr (c', ex_world))
       \<and> initializeGrid len_seedrandom
           (ex_params\<lparr>par_T := 3, par_r := 2, par_beta := 1/2, par_alpha := 1/3\<rparr>)
           (ex_component\<lparr>initGridRef := None, grid := None, time := 9, isRunning := False\<rparr>)
           (ex_world\<lparr>calls := 1\<rparr>)
           = Some (Inr (d', ex_world\<lparr>calls := 1\<rparr>))
       \<and> grid c' = Some [[1, 1, 0], [0, 0, 0]] \<and> grid d' = grid c')
   \<and> (\<exists>pl pl' c' d' w' v'.
         exportNexpJSON len_seedrandom ex_params 2 (ex_component\<lparr>initGridRef := None\<rparr>) ex_world
           = Some (Inr (pl, c', w'))
       \<and> exportNexpJSON len_seedrandom
           (ex_params\<lparr>par_T := 3, par_r := 2, par_beta := 1/2, par_alpha := 1/3\<rparr>) 3
           (ex_component\<lparr>initGridRef := None, grid := None, time := 9, isRunning := False\<rparr>)
           (ex_world\<lparr>calls := 1\<rparr>)
           = Some (Inr (pl', d', v'))
       \<and> initGridRef c' = initGridRef d'
       \<and> run_i (runs pl ! 1) ! 0 = run_i (runs pl' ! 2) ! 0
       \<and> map (\<lambda>r. (run_s r, run_i r, run_r r)) (runs pl)
            = [([4, 2, 0], [2, 3, 4], [0, 1, 2]), ([4, 2, 0], [2, 3, 5], [0, 1, 1])]
       \<and> map (\<lambda>r. (run_s r, run_i r, run_r r)) (runs pl')
            = [([4, 2, 0, 0], [2, 3, 5, 2], [0, 1, 1, 4]), ([4, 2, 0, 0], [2, 3, 5, 2], [0, 1, 1, 4]),
               ([4, 2, 0, 0], [2, 3, 5, 2], [0, 1, 1, 4])])"
proof -
  let ?q = "ex_params\<lparr>par_T := 3, par_r := 2, par_beta := 1/2, par_alpha := 1/3\<rparr>"
  let ?c = "ex_component\<lparr>initGridRef := None\<rparr>"
  let ?d = "ex_component\<lparr>initGridRef := None, grid := None, time := 9, isRunning := False\<rparr>"
  let ?v = "ex_world\<lparr>calls := 1\<rparr>"
  let ?G = "[[1, 1, 0], [0, 0, 0]] :: grid"
  have h: "par_M ex_params = par_M ?q" "par_N ex_params = par_N ?q" "par_I0 ex_params = par_I0 ?q"
    by simp_all
  note th = seeded_initializer_deterministic[of ex_params ?q len_seedrandom len_seedrandom, OF h refl]
  have s: "len_seedrandom ''another seed'' \<noteq> len_seedrandom initSeed"
  proof
    assume "len_seedrandom ''another seed'' = len_seedrandom initSeed"
    then have "len_seedrandom ''another seed'' 5 = len_seedrandom initSeed 5" by simp
    then show False by (simp add: len_seedrandom_def initSeed_def)
  qed
  from th have e: "makeInitialGrid len_seedrandom ex_params = makeInitialGrid len_seedrandom ?q"
    by (rule conjunct1)
  from e have e': "makeInitialGrid len_seedrandom ?q = Some (Inr ?G)"
    using len_makeInitialGrid by simp
  have lim: "unit_draws (len_seedrandom initSeed) \<and> 1 \<le> par_M ex_params \<and> par_M ex_params < 4294967296
            \<and> 1 \<le> par_N ex_params \<and> par_N ex_params < 4294967296 \<and> 0 \<le> par_I0 ex_params"
    using len_seedrandom_unit by (simp add: ex_params_def)
  from th[THEN conjunct2, THEN conjunct1, rule_format, OF lim len_makeInitialGrid]
  obtain g j where "Inr ?G = (Inr g :: js_error + grid)"
    and mk: "marks g (coord (len_seedrandom initSeed) (par_M ex_params) (par_N ex_params) ` {..<j})"
    and un: "\<forall>j'. int (card (coord (len_seedrandom initSeed) (par_M ex_params) (par_N ex_params) ` {..<j'}))
                = par_I0 ex_params
             \<longrightarrow> coord (len_seedrandom initSeed) (par_M ex_params) (par_N ex_params) ` {..<j'}
                  = coord (len_seedrandom initSeed) (par_M ex_params) (par_N ex_params) ` {..<j}"
    by blast
  then have gG: "g = ?G" by simp
  have "int (card (coord (len_seedrandom initSeed) (par_M ex_params) (par_N ex_params) ` {..<3}))
          = par_I0 ex_params"
    unfolding len_coords by (simp add: ex_params_def)
  from un[rule_format, OF this]
  have cj: "coord (len_seedrandom initSeed) (par_M ex_params) (par_N ex_params) ` {..<j}
                      = {(0, 0), (0, 1)}"
    unfolding len_coords(4) by (rule sym)
  have m: "\<exists>j. marks ?G (coord (len_seedrandom initSeed) (par_M ex_params) (par_N ex_params) ` {..<j})
          \<and> coord (len_seedrandom initSeed) (par_M ex_params) (par_N ex_params) ` {..<j}
               = {(0, 0), (0, 1)}"
    using mk cj gG by blast
  have ic: "initializeGrid len_seedrandom ex_params ?c ex_world
              = Some (Inr (?c\<lparr>initGridRef := Some ?G, grid := Some ?G, history := [], time := 0,
                              animationRef := []\<rparr>, ex_world))"
    by (simp add: initializeGrid_def len_makeInitialGrid)
  have id: "initializeGrid len_seedrandom ?q ?d ?v
              = Some (Inr (?d\<lparr>initGridRef := Some ?G, grid := Some ?G, history := [], time := 0,
                              animationRef := []\<rparr>, ?v))"
    by (simp add: initializeGrid_def e')
  have i: "\<exists>c' d'.
         initializeGrid len_seedrandom ex_params ?c ex_world = Some (Inr (c', ex_world))
       \<and> initializeGrid len_seedrandom ?q ?d ?v = Some (Inr (d', ?v))
       \<and> grid c' = Some ?G \<and> grid d' = grid c'"
    using ic id by simp
  from map_option_sum_triple[OF len_exports(1)]
  obtain pl c' w' where x1: "exportNexpJSON len_seedrandom ex_params 2 ?c ex_world = Some (Inr (pl, c', w'))"
    and r1: "map (\<lambda>r. (run_s r, run_i r, run_r r)) (runs pl)
               = [([4, 2, 0], [2, 3, 4], [0, 1, 2]), ([4, 2, 0], [2, 3, 5], [0, 1, 1])]"
    by auto
  from map_option_sum_triple[OF len_exports(2)]
  obtain pl' d' v' where x2: "exportNexpJSON len_seedrandom ?q 3 ?d ?v = Some (Inr (pl', d', v'))"
    and r2: "map (\<lambda>r. (run_s r, run_i r, run_r r)) (runs pl')
               = [([4, 2, 0, 0], [2, 3, 5, 2], [0, 1, 1, 4]), ([4, 2, 0, 0], [2, 3, 5, 2], [0, 1, 1, 4]),
                  ([4, 2, 0, 0], [2, 3, 5, 2], [0, 1, 1, 4])]"
    by auto
  have l1: "1 < length (runs pl)" using arg_cong[OF r1, of length] by simp
  have l2: "2 < length (runs pl')" using arg_cong[OF r2, of length] by simp
  have pre: "initGridRef ?c = None \<and> initGridRef ?d = None
       \<and> exportNexpJSON len_seedrandom ex_params 2 ?c ex_world = Some (Inr (pl, c', w'))
       \<and> exportNexpJSON len_seedrandom ?q 3 ?d ?v = Some (Inr (pl', d', v'))
       \<and> 0 \<le> par_T ex_params \<and> 0 \<le> par_T ?q"
    using x1 x2 by (simp add: ex_params_def)
  note batch = th[THEN conjunct2, THEN conjunct2, THEN conjunct2, THEN conjunct2, rule_format, OF pre]
  from batch have ref: "initGridRef c' = initGridRef d'" by (rule conjunct1)
  from batch[THEN conjunct2, rule_format, OF l1 l2]
  have fi: "run_i (runs pl ! 1) ! 0 = run_i (runs pl' ! 2) ! 0" by simp
  have x: "\<exists>pl pl' c' d' w' v'.
         exportNexpJSON len_seedrandom ex_params 2 ?c ex_world = Some (Inr (pl, c', w'))
       \<and> exportNexpJSON len_seedrandom ?q 3 ?d ?v = Some (Inr (pl', d', v'))
       \<and> initGridRef c' = initGridRef d'
       \<and> run_i (runs pl ! 1) ! 0 = run_i (runs pl' ! 2) ! 0
       \<and> map (\<lambda>r. (run_s r, run_i r, run_r r)) (runs pl)
            = [([4, 2, 0], [2, 3, 4], [0, 1, 2]), ([4, 2, 0], [2, 3, 5], [0, 1, 1])]
       \<and> map (\<lambda>r. (run_s r, run_i r, run_r r)) (runs pl')
            = [([4, 2, 0, 0], [2, 3, 5, 2], [0, 1, 1, 4]), ([4, 2, 0, 0], [2, 3, 5, 2], [0, 1, 1, 4]),
               ([4, 2, 0, 0], [2, 3, 5, 2], [0, 1, 1, 4])]"
    by (rule exI[of _ pl], rule exI[of _ pl'], rule exI[of _ c'], rule exI[of _ d'],
        rule exI[of _ w'], rule exI[of _ v'])
      (intro conjI x1 x2 ref fi r1 r2)
  show ?thesis using h s len_makeInitialGrid e' len_coords(4) m i x by (intro conjI)
qed




text \<open>
  The unseeded initializer of \<open>App.jsx\<close> on the 2 by 3 grid with \<open>I0 = 2\<close>: both
  rounds draw the cell \<open>(0, 1)\<close>, and one cell is infected.
\<close>

lemma App_initializeGrid_collision:
  "map_sum id fst (App_initializeGrid ex_params ex_world) = Inr [[0, 1, 0], [0, 0, 0]]
   \<and> par_I0 ex_params = 2"
  by (simp add: ex_params_def) code_simp

subsection \<open>The records of the two kinds of run\<close>

text \<open>
  The headless run on the scenario \<open>M = 10\<close>, \<open>N = 10\<close>, \<open>I0 = 3\<close>, \<open>T = 0\<close>, from
  the grid that \<open>makeInitialGrid\<close> returns: its history is the one record
  \<open>{t: 0, s: 97, i: 3, r: 0}\<close>, and no draw of \<open>Math.random()\<close> is made.
\<close>

lemma headless_run_of_initial_grid:
  assumes "unit_draws (seedrandom initSeed)"
    and "par_M p = 10" and "par_N p = 10" and "par_I0 p = 3" and "par_T p = 0"
    and "3 \<le> int (card (coord (seedrandom initSeed) 10 10 ` {..<J}))"
  shows "\<exists>g. makeInitialGrid seedrandom p = Some (Inr g)
           \<and> runOnceNoAnimate p (Some g) w
                = Inr ([\<lparr>rec_t = 0, rec_s = 97, rec_i = 3, rec_r = 0\<rparr>], w)"
proof -
  from makeInitialGrid_total[of seedrandom p J] assms
  obtain g where g: "makeInitialGrid seedrandom p = Some (Inr g)"
    and cs: "countStates p g = Inr (97, 3, 0)"
    by auto
  have "[0..par_T p] = [0]" using assms(5) by (simp add: upto.simps)
  then have "runOnceNoAnimate p (Some g) w
                = Inr ([\<lparr>rec_t = 0, rec_s = 97, rec_i = 3, rec_r = 0\<rparr>], w)"
    using cs assms(5) by (simp add: runOnceNoAnimate_def runOnceNoAnimate_body_def)
  then show ?thesis using g by blast
qed

lemma ui_dims: "grid_dims ui_params ui_grid"
  by code_simp

lemma ui_counts: "countStates ui_params ui_grid = Inr (399, 1, 0)"
  by code_simp

lemma ui_first_step:
  "(case step ui_params ui_grid ex_world of Inl e \<Rightarrow> Inl e
    | Inr (g1, w1) \<Rightarrow> countStates ui_params g1) = Inr (397, 2, 1)"
  by code_simp

text \<open>
  Claim C5 on the two runs of the component, from the same 20 by 20 grid with
  \<open>T = 50\<close>. The visible run records the counts of \<open>step(grid)\<close> under the label
  \<open>t = time\<close>: its history has 50 records, and the one labelled \<open>t = 0\<close> holds the
  counts after the first transition (397, 2, 1), not those of the initial grid
  (399, 1, 0). \<open>runOnceNoAnimate\<close> does what the claim says: 51 records, the first
  one the counts of the initial grid.
\<close>

theorem visible_run_skips_initial_record:
  "(\<exists>c' w'. visible_run ui_params ui_component ex_world = Inr (c', w')
      \<and> length (history c') = 50
      \<and> history c' ! 0 = \<lparr>rec_t = 0, rec_s = 397, rec_i = 2, rec_r = 1\<rparr>)
   \<and> countStates ui_params ui_grid = Inr (399, 1, 0)
   \<and> (\<exists>hist w'. runOnceNoAnimate ui_params (Some ui_grid) ex_world = Inr (hist, w')
         \<and> length hist = 51
         \<and> hist ! 0 = \<lparr>rec_t = 0, rec_s = 399, rec_i = 1, rec_r = 0\<rparr>)"
proof -
  have lim: "par_M ui_params < 4294967296 \<and> par_N ui_params < 4294967296
               \<and> par_r ui_params \<le> par_M ui_params"
    by (simp add: ui_params_def)
  have pre: "grid ui_component = Some ui_grid" "isRunning ui_component"
    "time ui_component \<le> par_T ui_params" "history ui_component = []" "time ui_component = 0"
    "par_T ui_params = 50"
    by (simp_all add: ui_component_def ui_params_def)
  note vr = visible_run_result[of ui_component ui_params ex_world, rule_format,
      OF pre(1) ui_dims pre(2) pre(3)]
  from vr lim obtain c' w' where ret: "visible_run ui_params ui_component ex_world = Inr (c', w')"
    by (metis surj_pair)
  from vr ret have len: "length (history c') = length (history ui_component)
        + nat (par_T ui_params - time ui_component)"
    and first: "time ui_component < par_T ui_params \<longrightarrow>
       (\<exists>g1 w1 s i r. step ui_params ui_grid ex_world = Inr (g1, w1)
          \<and> countStates ui_params g1 = Inr (s, i, r)
          \<and> history c' ! length (history ui_component)
               = \<lparr>rec_t = time ui_component, rec_s = s, rec_i = i, rec_r = r\<rparr>)"
    by blast+
  have l50: "length (history c') = 50" using len pre by simp
  from first pre obtain g1 w1 s i r where st: "step ui_params ui_grid ex_world = Inr (g1, w1)"
    and cs: "countStates ui_params g1 = Inr (s, i, r)"
    and h0: "history c' ! 0 = \<lparr>rec_t = 0, rec_s = s, rec_i = i, rec_r = r\<rparr>"
    by auto
  have "s = 397 \<and> i = 2 \<and> r = 1" using ui_first_step st cs by simp
  then have v: "\<exists>c' w'. visible_run ui_params ui_component ex_world = Inr (c', w')
      \<and> length (history c') = 50
      \<and> history c' ! 0 = \<lparr>rec_t = 0, rec_s = 397, rec_i = 2, rec_r = 1\<rparr>"
    using ret l50 h0 by blast
  note hr = runOnceNoAnimate_result[OF ui_dims, of ex_world]
  from hr lim obtain hist w2 where run: "runOnceNoAnimate ui_params (Some ui_grid) ex_world = Inr (hist, w2)"
    by (metis surj_pair)
  from hr run have hl: "length hist = nat (par_T ui_params + 1)" and ok: "hist_ok ui_params ui_grid hist"
    by blast+
  have l51: "length hist = 51" using hl pre by simp
  then have ne: "hist \<noteq> []" by auto
  from ok ne l51 have "rec_t (hist ! 0) = 0"
    and "countStates ui_params ui_grid = Inr (rec_s (hist ! 0), rec_i (hist ! 0), rec_r (hist ! 0))"
    unfolding hist_ok_def by auto
  then have "hist ! 0 = \<lparr>rec_t = 0, rec_s = 399, rec_i = 1, rec_r = 0\<rparr>"
    using ui_counts by (intro StepRecord.equality) simp_all
  then have h: "\<exists>hist w'. runOnceNoAnimate ui_params (Some ui_grid) ex_world = Inr (hist, w')
         \<and> length hist = 51
         \<and> hist ! 0 = \<lparr>rec_t = 0, rec_s = 399, rec_i = 1, rec_r = 0\<rparr>"
    using run l51 by blast
  show ?thesis using v ui_counts h by blast
qed

end
